theory Spec2Isabelle
  imports Main
begin

section \<open>The dataset adapter of \<^verbatim>\<open>multimodal/data/dataset.py\<close>\<close>

text \<open>
  The class \<^verbatim>\<open>BaseDataset\<close> wraps a data frame for a training loop. Its constructor
  asks one preprocessor per processor group for the model-agnostic features of every
  modality and stores them as attributes; \<^verbatim>\<open>__getitem__\<close> runs every per-model
  processor on the stored features and merges the returned dictionaries, tolerating a
  bounded number of consecutive failures by moving on to the next index.

  The preprocessors and processors are external objects. They are modelled as pure
  functions that either return a value or raise; the data frame is a value of an
  arbitrary type \<open>'d\<close>, a feature value of type \<open>'v\<close>, a model input of type \<open>'x\<close>.
  The constant \<^verbatim>\<open>GET_ITEM_ERROR_RETRY\<close> is imported from a module that is not part of
  the sources at hand, so it is the parameter \<open>retry\<close> of \<open>getitem\<close>.
\<close>

subsection \<open>Exceptions\<close>

text \<open>
  \<^verbatim>\<open>except Exception\<close> catches every exception derived from \<^verbatim>\<open>Exception\<close> and lets the
  other descendants of \<^verbatim>\<open>BaseException\<close> (\<^verbatim>\<open>KeyboardInterrupt\<close>, \<^verbatim>\<open>SystemExit\<close>) pass.
\<close>

datatype exn =
    AttributeError string
  | AssertionError
  | IndexError
  | ZeroDivisionError
  | OtherException string
  | NonException string

fun is_Exception :: "exn \<Rightarrow> bool" where
  "is_Exception (NonException _) = False"
| "is_Exception _ = True"

subsection \<open>Dictionaries\<close>

text \<open>
  A Python dictionary keeps its keys in insertion order: an association list with
  distinct keys. \<^verbatim>\<open>d[k] = v\<close> replaces the value of a key in place and appends a new
  key at the end; \<^verbatim>\<open>ret.update(d)\<close> does so for every item of \<open>d\<close> in order.
\<close>

type_synonym ('k, 'a) dict = "('k \<times> 'a) list"

fun setitem :: "'k \<Rightarrow> 'a \<Rightarrow> ('k, 'a) dict \<Rightarrow> ('k, 'a) dict" where
  "setitem k v [] = [(k, v)]"
| "setitem k v ((k', v') # d) = (if k' = k then (k, v) # d else (k', v') # setitem k v d)"

fun dict_update :: "('k, 'a) dict \<Rightarrow> ('k, 'a) dict \<Rightarrow> ('k, 'a) dict" where
  "dict_update ret [] = ret"
| "dict_update ret ((k, v) # d) = dict_update (setitem k v ret) d"

subsection \<open>The data model\<close>

text \<open>
  The model-agnostic features of one modality are a dictionary from column names to
  columns. A preprocessor is an object whose attributes \<^verbatim>\<open>transform_<modality>\<close> are
  looked up by name; a processor is a callable on the features, the sample index and
  the training flag; a processor group is a dictionary from modality names to the list
  of per-model processors of that modality.
\<close>

type_synonym 'v features = "(string, 'v list) dict"

type_synonym ('d, 'v) preprocessor = "string \<rightharpoonup> ('d \<Rightarrow> exn + 'v features)"

type_synonym ('v, 'x) processor = "'v features \<Rightarrow> int \<Rightarrow> bool \<Rightarrow> exn + (string, 'x) dict"

type_synonym ('v, 'x) processors_group = "(string, ('v, 'x) processor list) dict"

record ('v, 'x) dataset =
  processors :: "('v, 'x) processors_group list"
  is_training :: bool
  consecutive_errors :: int
  lengths :: "nat list"
  attrs :: "string \<rightharpoonup> 'v features"

text \<open>
  \<open>attrs\<close> holds the attributes set by \<^verbatim>\<open>setattr(self, f"{per_modality}_{i}", ...)\<close>. The
  name is the modality, an underscore and the decimal digits of the group's position.
\<close>

definition digit_char :: "nat \<Rightarrow> char" where
  "digit_char d = char_of (48 + d)"

function str_nat :: "nat \<Rightarrow> string" where
  "str_nat n = (if n < 10 then [digit_char n] else str_nat (n div 10) @ [digit_char (n mod 10)])"
  by pat_completeness auto
termination
  by (relation "measure (\<lambda>n. n)") auto

declare str_nat.simps [simp del]

definition attr_name :: "string \<Rightarrow> nat \<Rightarrow> string" where
  "attr_name per_modality i = per_modality @ ''_'' @ str_nat i"

definition transform_name :: "string \<Rightarrow> string" where
  "transform_name per_modality = ''transform_'' @ per_modality"

subsection \<open>The constructor\<close>

text \<open>
  The inner loop of \<^verbatim>\<open>__init__\<close> over the modalities of one processor group. The state
  is the attribute table and \<^verbatim>\<open>self.lengths\<close>. A missing \<^verbatim>\<open>transform_<modality>\<close> raises
  \<^verbatim>\<open>AttributeError\<close>, and whatever the transform raises leaves the constructor. The
  recorded length is that of the first column of a non-empty feature dictionary.
\<close>

fun init_modalities ::
  "('d, 'v) preprocessor \<Rightarrow> 'd \<Rightarrow> nat \<Rightarrow> string list
    \<Rightarrow> (string \<rightharpoonup> 'v features) \<times> nat list \<Rightarrow> exn + (string \<rightharpoonup> 'v features) \<times> nat list" where
  "init_modalities per_preprocessor data i [] st = Inr st"
| "init_modalities per_preprocessor data i (per_modality # ms) (at, ls) =
     (case per_preprocessor (transform_name per_modality) of
        None \<Rightarrow> Inl (AttributeError (transform_name per_modality))
      | Some transform \<Rightarrow>
          (case transform data of
             Inl e \<Rightarrow> Inl e
           | Inr per_modality_features \<Rightarrow>
               init_modalities per_preprocessor data i ms
                 (at(attr_name per_modality i \<mapsto> per_modality_features),
                  if per_modality_features \<noteq> []
                  then ls @ [length (snd (hd per_modality_features))] else ls)))"

text \<open>The outer loop over \<^verbatim>\<open>enumerate(zip(preprocessor, processors))\<close>.\<close>

fun init_groups ::
  "'d \<Rightarrow> nat \<Rightarrow> (('d, 'v) preprocessor \<times> ('v, 'x) processors_group) list
    \<Rightarrow> (string \<rightharpoonup> 'v features) \<times> nat list \<Rightarrow> exn + (string \<rightharpoonup> 'v features) \<times> nat list" where
  "init_groups data i [] st = Inr st"
| "init_groups data i ((per_preprocessor, per_processors_group) # rest) st =
     (case init_modalities per_preprocessor data i (map fst per_processors_group) st of
        Inl e \<Rightarrow> Inl e
      | Inr st' \<Rightarrow> init_groups data (Suc i) rest st')"

text \<open>
  \<^verbatim>\<open>assert len(set(self.lengths)) == 1\<close>: the number of distinct recorded lengths is
  the length of the list without its duplicates.
\<close>

definition init ::
  "'d \<Rightarrow> ('d, 'v) preprocessor list \<Rightarrow> ('v, 'x) processors_group list \<Rightarrow> bool
    \<Rightarrow> exn + ('v, 'x) dataset" where
  "init data preprocessor procs training =
     (case init_groups data 0 (zip preprocessor procs) (Map.empty, []) of
        Inl e \<Rightarrow> Inl e
      | Inr (at, ls) \<Rightarrow>
          if length (remdups ls) = 1
          then Inr \<lparr>processors = procs, is_training = training, consecutive_errors = 0,
                    lengths = ls, attrs = at\<rparr>
          else Inl AssertionError)"

subsection \<open>\<^verbatim>\<open>__len__\<close>\<close>

text \<open>\<^verbatim>\<open>self.lengths[0]\<close> raises \<^verbatim>\<open>IndexError\<close> on an empty list.\<close>

definition len :: "('v, 'x) dataset \<Rightarrow> exn + nat" where
  "len self = (case lengths self of [] \<Rightarrow> Inl IndexError | n # _ \<Rightarrow> Inr n)"

subsection \<open>\<^verbatim>\<open>__getitem__\<close>\<close>

text \<open>
  Every invocation of a per-model processor is logged with the place it was registered
  at (group position and modality key) and the three arguments it received.
\<close>

record ('v, 'x) call =
  call_group :: nat
  call_modality :: string
  call_processor :: "('v, 'x) processor"
  call_features :: "'v features"
  call_idx :: int
  call_is_training :: bool

text \<open>
  The innermost loop over the per-model processors of one modality. The attribute is
  read once per processor, inside the loop, so a missing attribute raises
  \<^verbatim>\<open>AttributeError\<close> only when there is a processor to run. Empty features skip the
  processor.
\<close>

fun run_model_processors ::
  "('v, 'x) dataset \<Rightarrow> int \<Rightarrow> nat \<Rightarrow> string \<Rightarrow> ('v, 'x) processor list
    \<Rightarrow> ('v, 'x) call list \<times> (string, 'x) dict
    \<Rightarrow> ('v, 'x) call list \<times> (exn + (string, 'x) dict)" where
  "run_model_processors self idx i per_modality [] (log, ret) = (log, Inr ret)"
| "run_model_processors self idx i per_modality (per_model_processor # ps) (log, ret) =
     (case attrs self (attr_name per_modality i) of
        None \<Rightarrow> (log, Inl (AttributeError (attr_name per_modality i)))
      | Some per_modality_features \<Rightarrow>
          if per_modality_features \<noteq> [] then
            (let log' = log @ [\<lparr>call_group = i, call_modality = per_modality,
                                call_processor = per_model_processor,
                                call_features = per_modality_features,
                                call_idx = idx, call_is_training = is_training self\<rparr>]
             in case per_model_processor per_modality_features idx (is_training self) of
                  Inl e \<Rightarrow> (log', Inl e)
                | Inr d \<Rightarrow>
                    run_model_processors self idx i per_modality ps (log', dict_update ret d))
          else run_model_processors self idx i per_modality ps (log, ret))"

text \<open>The loop over \<^verbatim>\<open>per_processors_group.items()\<close>.\<close>

fun run_modalities ::
  "('v, 'x) dataset \<Rightarrow> int \<Rightarrow> nat \<Rightarrow> ('v, 'x) processors_group
    \<Rightarrow> ('v, 'x) call list \<times> (string, 'x) dict
    \<Rightarrow> ('v, 'x) call list \<times> (exn + (string, 'x) dict)" where
  "run_modalities self idx i [] (log, ret) = (log, Inr ret)"
| "run_modalities self idx i ((per_modality, per_modality_processors) # rest) st =
     (case run_model_processors self idx i per_modality per_modality_processors st of
        (log, Inl e) \<Rightarrow> (log, Inl e)
      | (log, Inr ret) \<Rightarrow> run_modalities self idx i rest (log, ret))"

text \<open>The loop over \<^verbatim>\<open>enumerate(self.processors)\<close>.\<close>

fun run_groups ::
  "('v, 'x) dataset \<Rightarrow> int \<Rightarrow> nat \<Rightarrow> ('v, 'x) processors_group list
    \<Rightarrow> ('v, 'x) call list \<times> (string, 'x) dict
    \<Rightarrow> ('v, 'x) call list \<times> (exn + (string, 'x) dict)" where
  "run_groups self idx i [] (log, ret) = (log, Inr ret)"
| "run_groups self idx i (per_processors_group # rest) st =
     (case run_modalities self idx i per_processors_group st of
        (log, Inl e) \<Rightarrow> (log, Inl e)
      | (log, Inr ret) \<Rightarrow> run_groups self idx (Suc i) rest (log, ret))"

text \<open>The body of the \<^verbatim>\<open>try\<close> statement, starting from \<^verbatim>\<open>ret = dict()\<close>.\<close>

definition try_block ::
  "('v, 'x) dataset \<Rightarrow> int \<Rightarrow> ('v, 'x) call list \<times> (exn + (string, 'x) dict)" where
  "try_block self idx = run_groups self idx 0 (processors self) ([], [])"

definition prepare :: "('v, 'x) dataset \<Rightarrow> int \<Rightarrow> exn + (string, 'x) dict" where
  "prepare self idx = snd (try_block self idx)"

text \<open>
  \<^verbatim>\<open>(idx + 1) % self.__len__()\<close>: the call of \<^verbatim>\<open>__len__\<close> may raise, and so does the
  remainder by zero. For a positive length Python's \<^verbatim>\<open>%\<close> is \<open>mod\<close> on \<open>int\<close>.
\<close>

definition next_index :: "('v, 'x) dataset \<Rightarrow> int \<Rightarrow> exn + int" where
  "next_index self idx =
     (case len self of
        Inl e \<Rightarrow> Inl e
      | Inr n \<Rightarrow> if n = 0 then Inl ZeroDivisionError else Inr ((idx + 1) mod int n))"

text \<open>
  What a call of \<^verbatim>\<open>__getitem__\<close> leaves behind: the processor invocations it made, the
  value it returned or the exception it raised, and the dataset afterwards.
\<close>

record ('v, 'x) outcome =
  calls :: "('v, 'x) call list"
  result :: "exn + (string, 'x) dict"
  state :: "('v, 'x) dataset"

text \<open>
  \<^verbatim>\<open>__getitem__\<close>. An exception that is not an \<^verbatim>\<open>Exception\<close> passes the handler
  untouched. In the handler the counter is incremented first; below the bound the
  method calls itself on the next index, and an exception of that call or of the index
  computation leaves the handler as it is; at the bound the caught exception is raised
  again. After the \<^verbatim>\<open>try\<close> statement the counter is reset.
\<close>

function getitem :: "int \<Rightarrow> ('v, 'x) dataset \<Rightarrow> int \<Rightarrow> ('v, 'x) outcome" where
  "getitem retry self idx =
     (case try_block self idx of
        (log, Inr ret) \<Rightarrow>
          \<lparr>calls = log, result = Inr ret, state = self\<lparr>consecutive_errors := 0\<rparr>\<rparr>
      | (log, Inl e) \<Rightarrow>
          if \<not> is_Exception e then \<lparr>calls = log, result = Inl e, state = self\<rparr>
          else
            (let self' = self\<lparr>consecutive_errors := consecutive_errors self + 1\<rparr> in
             if consecutive_errors self' < retry then
               (case next_index self' idx of
                  Inl e' \<Rightarrow> \<lparr>calls = log, result = Inl e', state = self'\<rparr>
                | Inr idx' \<Rightarrow>
                    (let out = getitem retry self' idx' in out\<lparr>calls := log @ calls out\<rparr>))
             else \<lparr>calls = log, result = Inl e, state = self'\<rparr>))"
  by pat_completeness auto
termination
  by (relation "measure (\<lambda>(retry, self, idx). nat (retry - consecutive_errors self))") auto

declare getitem.simps [simp del]

subsection \<open>Notions used to state the properties\<close>

text \<open>
  The index of the \<open>k\<close>-th attempt of a call that starts at \<open>idx\<close> on a dataset of \<open>n\<close>
  samples: the call's own index first, then one step further each time, wrapping
  around past the last index.
\<close>

definition attempt_index :: "nat \<Rightarrow> int \<Rightarrow> nat \<Rightarrow> int" where
  "attempt_index n idx k = (if k = 0 then idx else (idx + int k) mod int n)"

text \<open>
  What the iterations of the innermost loop for one modality produce, in order: one
  output per per-model processor when the stored features are non-empty, none when
  they are empty, and the failed attribute lookup when nothing is stored.
\<close>

definition modality_outputs ::
  "('v, 'x) dataset \<Rightarrow> int \<Rightarrow> nat \<Rightarrow> string \<Rightarrow> ('v, 'x) processor list
    \<Rightarrow> (exn + (string, 'x) dict) list" where
  "modality_outputs self idx i per_modality ps =
     (case attrs self (attr_name per_modality i) of
        None \<Rightarrow> map (\<lambda>p. Inl (AttributeError (attr_name per_modality i))) ps
      | Some per_modality_features \<Rightarrow>
          if per_modality_features \<noteq> []
          then map (\<lambda>p. p per_modality_features idx (is_training self)) ps
          else [])"

definition group_outputs ::
  "('v, 'x) dataset \<Rightarrow> int \<Rightarrow> nat \<Rightarrow> ('v, 'x) processors_group
    \<Rightarrow> (exn + (string, 'x) dict) list" where
  "group_outputs self idx i per_processors_group =
     concat (map (\<lambda>(per_modality, ps). modality_outputs self idx i per_modality ps)
       per_processors_group)"

text \<open>
  The outputs over every processor group, every modality of the group and every
  per-model processor of the modality, left to right.
\<close>

definition processor_outputs ::
  "('v, 'x) dataset \<Rightarrow> int \<Rightarrow> (exn + (string, 'x) dict) list" where
  "processor_outputs self idx =
     concat (map (\<lambda>(i, per_processors_group). group_outputs self idx i per_processors_group)
       (enumerate 0 (processors self)))"

fun returned :: "(exn + 'a) list \<Rightarrow> 'a list" where
  "returned [] = []"
| "returned (Inl e # outs) = returned outs"
| "returned (Inr d # outs) = d # returned outs"

text \<open>
  The left-to-right merged union of the dictionaries that the processors return for an
  index: an empty dictionary updated with each of them in turn.
\<close>

definition merged_union :: "('v, 'x) dataset \<Rightarrow> int \<Rightarrow> (string, 'x) dict" where
  "merged_union self idx = foldl dict_update [] (returned (processor_outputs self idx))"

text \<open>Merging a sequence of outputs into \<open>ret\<close> up to the first one that raised.\<close>

fun merge_outputs ::
  "('k, 'a) dict \<Rightarrow> (exn + ('k, 'a) dict) list \<Rightarrow> exn + ('k, 'a) dict" where
  "merge_outputs ret [] = Inr ret"
| "merge_outputs ret (Inl e # outs) = Inl e"
| "merge_outputs ret (Inr d # outs) = merge_outputs (dict_update ret d) outs"

text \<open>
  The features that a preprocessor yields for a modality, if its transform exists and
  returns, and the sample counts that the constructor records for them: the length of
  the first column of each non-empty feature dictionary.
\<close>

definition features_of :: "('d, 'v) preprocessor \<Rightarrow> 'd \<Rightarrow> string \<Rightarrow> 'v features option" where
  "features_of per_preprocessor data per_modality =
     (case per_preprocessor (transform_name per_modality) of
        None \<Rightarrow> None
      | Some transform \<Rightarrow> (case transform data of Inl e \<Rightarrow> None | Inr f \<Rightarrow> Some f))"

definition sample_count :: "'v features option \<Rightarrow> nat list" where
  "sample_count fo =
     (case fo of None \<Rightarrow> [] | Some f \<Rightarrow> if f \<noteq> [] then [length (snd (hd f))] else [])"

definition sample_counts ::
  "'d \<Rightarrow> (('d, 'v) preprocessor \<times> ('v, 'x) processors_group) list \<Rightarrow> nat list" where
  "sample_counts data zs =
     concat (map (\<lambda>(per_preprocessor, per_processors_group).
         concat (map (\<lambda>per_modality. sample_count (features_of per_preprocessor data per_modality))
           (map fst per_processors_group)))
       zs)"

subsection \<open>A small dataset\<close>

text \<open>
  A data frame with a text column and a label column of three samples, one preprocessor
  that hands out the column of a modality (and no features for a modality without
  column), and one processor group with two text processors, an image processor and a
  label processor. A processor reads the sample at the index; it raises on an index out
  of range and on a negative entry, which stands for a corrupt sample. Samples 1 and 2
  are corrupt.
\<close>

definition select_column :: "string \<Rightarrow> (string, int list) dict \<Rightarrow> exn + int features" where
  "select_column c data = (case map_of data c of None \<Rightarrow> Inr [] | Some col \<Rightarrow> Inr [(c, col)])"

definition example_preprocessor :: "((string, int list) dict, int) preprocessor" where
  "example_preprocessor =
     [transform_name ''text'' \<mapsto> select_column ''text'',
      transform_name ''image'' \<mapsto> select_column ''image'',
      transform_name ''label'' \<mapsto> select_column ''label'']"

definition column_processor :: "string \<Rightarrow> (int, int) processor" where
  "column_processor key f idx training =
     (case f of
        [] \<Rightarrow> Inl IndexError
      | (c, col) # _ \<Rightarrow>
          if 0 \<le> idx \<and> idx < int (length col)
          then (if col ! nat idx < 0 then Inl (OtherException ''corrupt sample'')
                else Inr [(key, col ! nat idx)])
          else Inl IndexError)"

definition example_processors :: "(int, int) processors_group list" where
  "example_processors =
     [[(''text'', [column_processor ''text_token_ids'', column_processor ''text_segment_ids'']),
       (''image'', [column_processor ''image'']),
       (''label'', [column_processor ''label''])]]"

definition example_data :: "(string, int list) dict" where
  "example_data = [(''text'', [5, - 1, - 1]), (''label'', [0, 1, 0])]"

definition example_dataset :: "(int, int) dataset" where
  "example_dataset =
     \<lparr>processors = example_processors, is_training = True, consecutive_errors = 0,
      lengths = [3, 3],
      attrs = [''text_0'' \<mapsto> [(''text'', [5, - 1, - 1])], ''image_0'' \<mapsto> [],
               ''label_0'' \<mapsto> [(''label'', [0, 1, 0])]]\<rparr>"

text \<open>
  The same frame with a label column that is one sample short: the two modalities
  disagree on the sample count.
\<close>

definition ragged_data :: "(string, int list) dict" where
  "ragged_data = [(''text'', [5, - 1, - 1]), (''label'', [0, 1])]"

section \<open>Basic facts\<close>

subsection \<open>Attribute names\<close>

text \<open>
  The attribute name determines the modality and the group position: the digits hold
  no underscore, so the name splits at its last underscore, and the decimal digits
  determine the number.
\<close>

lemma of_char_digit: "d < 10 \<Longrightarrow> (of_char (digit_char d) :: nat) = 48 + d"
proof -
  assume d: "d < 10"
  have "(of_char (char_of (48 + d)) :: nat) = (48 + d) mod 256"
    by (rule of_char_of)
  moreover have "(48 + d) mod 256 = 48 + d"
    using d by simp
  ultimately show ?thesis
    unfolding digit_char_def by (rule trans)
qed

lemma digit_char_inj:
  assumes "a < 10" "b < 10" "digit_char a = digit_char b"
  shows "a = b"
proof -
  have "(of_char (digit_char a) :: nat) = of_char (digit_char b)"
    by (simp only: assms(3))
  then have "48 + a = 48 + b"
    by (simp only: of_char_digit [OF assms(1)] of_char_digit [OF assms(2)])
  then show ?thesis by arith
qed

lemma digit_char_not_underscore: "d < 10 \<Longrightarrow> digit_char d \<noteq> CHR ''_''"
proof
  assume "d < 10" "digit_char d = CHR ''_''"
  then have "(of_char (digit_char d) :: nat) = of_char CHR ''_''" by (simp only:)
  then have "48 + d = (95 :: nat)"
    by (simp only: of_char_digit [OF \<open>d < 10\<close>]) simp
  with \<open>d < 10\<close> show False by arith
qed

lemma str_nat_nonempty: "str_nat n \<noteq> []"
  by (subst str_nat.simps) simp

lemma str_nat_no_underscore: "CHR ''_'' \<notin> set (str_nat n)"
proof (induction n rule: str_nat.induct)
  case (1 n)
  show ?case
  proof (cases "n < 10")
    case True
    then show ?thesis
      using digit_char_not_underscore [of n] by (subst str_nat.simps) auto
  next
    case False
    then show ?thesis
      using 1 digit_char_not_underscore [of "n mod 10"] by (subst str_nat.simps) auto
  qed
qed

lemma str_nat_inj: "str_nat a = str_nat b \<Longrightarrow> a = b"
proof (induction a arbitrary: b rule: str_nat.induct)
  case (1 n)
  show ?case
  proof (cases "n < 10")
    case True
    note n = this
    show ?thesis
    proof (cases "b < 10")
      case True
      with n 1(2) show ?thesis
        by (simp add: str_nat.simps [of n] str_nat.simps [of b] digit_char_inj)
    next
      case False
      with n 1(2) show ?thesis
        using str_nat_nonempty [of "b div 10"]
        by (simp add: str_nat.simps [of n] str_nat.simps [of b])
    qed
  next
    case False
    note n = this
    show ?thesis
    proof (cases "b < 10")
      case True
      with n 1(2) show ?thesis
        using str_nat_nonempty [of "n div 10"]
        by (simp add: str_nat.simps [of n] str_nat.simps [of b])
    next
      case False
      with n 1(2) have eq: "str_nat (n div 10) = str_nat (b div 10)"
        "digit_char (n mod 10) = digit_char (b mod 10)"
        by (simp_all add: str_nat.simps [of n] str_nat.simps [of b])
      from 1(1) [OF n eq(1)] have "n div 10 = b div 10" .
      moreover from eq(2) have "n mod 10 = b mod 10"
        by (simp add: digit_char_inj)
      ultimately show ?thesis
        by (metis div_mult_mod_eq)
    qed
  qed
qed

lemma first_separator_unique:
  "xs @ c # ys = xs' @ c # ys' \<Longrightarrow> c \<notin> set xs \<Longrightarrow> c \<notin> set xs' \<Longrightarrow>
   xs = xs' \<and> ys = ys'"
proof (induction xs arbitrary: xs')
  case Nil
  then show ?case by (cases xs') auto
next
  case (Cons x xs)
  then show ?case by (cases xs') auto
qed

lemma split_last_underscore:
  assumes "m @ CHR ''_'' # s = m' @ CHR ''_'' # s'"
    and "CHR ''_'' \<notin> set s" "CHR ''_'' \<notin> set s'"
  shows "m = m' \<and> s = s'"
proof -
  have "rev s @ CHR ''_'' # rev m = rev s' @ CHR ''_'' # rev m'"
    using arg_cong [OF assms(1), of rev] by simp
  moreover have "CHR ''_'' \<notin> set (rev s)" "CHR ''_'' \<notin> set (rev s')"
    using assms(2,3) by simp_all
  ultimately have "rev s = rev s' \<and> rev m = rev m'"
    by (rule first_separator_unique)
  then show ?thesis by simp
qed

lemma attr_name_inj: "attr_name m i = attr_name m' i' \<longleftrightarrow> m = m' \<and> i = i'"
  using split_last_underscore [of m "str_nat i" m' "str_nat i'"]
    str_nat_no_underscore str_nat_inj
  by (auto simp: attr_name_def)

subsection \<open>The counter does not influence the preparation of a sample\<close>

lemma run_model_processors_counter [simp]:
  "run_model_processors (s\<lparr>consecutive_errors := c\<rparr>) idx i m ps st = run_model_processors s idx i m ps st"
  by (induction s idx i m ps st rule: run_model_processors.induct)
     (auto split: option.splits sum.splits simp: Let_def)

lemma run_modalities_counter [simp]:
  "run_modalities (s\<lparr>consecutive_errors := c\<rparr>) idx i g st = run_modalities s idx i g st"
  by (induction s idx i g st rule: run_modalities.induct)
     (auto split: prod.splits sum.splits)

lemma run_groups_counter [simp]:
  "run_groups (s\<lparr>consecutive_errors := c\<rparr>) idx i gs st = run_groups s idx i gs st"
  by (induction s idx i gs st rule: run_groups.induct)
     (auto split: prod.splits sum.splits)

lemma try_block_counter [simp]:
  "try_block (s\<lparr>consecutive_errors := c\<rparr>) idx = try_block s idx"
  by (simp add: try_block_def)

lemma prepare_counter [simp]:
  "prepare (s\<lparr>consecutive_errors := c\<rparr>) idx = prepare s idx"
  by (simp add: prepare_def)

lemma len_counter [simp]: "len (s\<lparr>consecutive_errors := c\<rparr>) = len s"
  by (simp add: len_def)

lemma next_index_counter [simp]:
  "next_index (s\<lparr>consecutive_errors := c\<rparr>) idx = next_index s idx"
  by (simp add: next_index_def)

lemma getitem_success:
  assumes "prepare self idx = Inr ret"
  shows "getitem retry self idx =
    \<lparr>calls = fst (try_block self idx), result = Inr ret,
     state = self\<lparr>consecutive_errors := 0\<rparr>\<rparr>"
  using assms by (cases "try_block self idx") (simp add: prepare_def getitem.simps [of retry self idx])

lemma getitem_non_exception:
  assumes "prepare self idx = Inl e" "\<not> is_Exception e"
  shows "getitem retry self idx =
    \<lparr>calls = fst (try_block self idx), result = Inl e, state = self\<rparr>"
  using assms by (cases "try_block self idx") (simp add: prepare_def getitem.simps [of retry self idx])

lemma getitem_reraise:
  assumes "prepare self idx = Inl e" "is_Exception e"
    and "\<not> consecutive_errors self + 1 < retry"
  shows "getitem retry self idx =
    \<lparr>calls = fst (try_block self idx), result = Inl e,
     state = self\<lparr>consecutive_errors := consecutive_errors self + 1\<rparr>\<rparr>"
  using assms by (cases "try_block self idx") (simp add: prepare_def getitem.simps [of retry self idx])

lemma getitem_retry:
  assumes "prepare self idx = Inl e" "is_Exception e"
    and "consecutive_errors self + 1 < retry"
    and "next_index self idx = Inr idx'"
  shows "getitem retry self idx =
    (getitem retry (self\<lparr>consecutive_errors := consecutive_errors self + 1\<rparr>) idx')
      \<lparr>calls := fst (try_block self idx) @
         calls (getitem retry (self\<lparr>consecutive_errors := consecutive_errors self + 1\<rparr>) idx')\<rparr>"
  using assms
  by (cases "try_block self idx")
     (simp add: prepare_def Let_def getitem.simps [of retry self idx])

lemma getitem_index_error:
  assumes "prepare self idx = Inl e" "is_Exception e"
    and "consecutive_errors self + 1 < retry"
    and "next_index self idx = Inl e'"
  shows "getitem retry self idx =
    \<lparr>calls = fst (try_block self idx), result = Inl e',
     state = self\<lparr>consecutive_errors := consecutive_errors self + 1\<rparr>\<rparr>"
  using assms
  by (cases "try_block self idx")
     (simp add: prepare_def Let_def getitem.simps [of retry self idx])

lemma next_index_attempt:
  assumes "len self = Inr n" "0 < n"
  shows "next_index self (attempt_index n idx k) = Inr (attempt_index n idx (Suc k))"
  using assms by (simp add: next_index_def attempt_index_def mod_simps ac_simps)

lemma getitem_skip_failures:
  assumes "0 < k \<longrightarrow> len self = Inr n \<and> 0 < n"
    and "\<forall>j<k. \<exists>e. prepare self (attempt_index n idx j) = Inl e \<and> is_Exception e"
    and "consecutive_errors self + int k < retry"
  shows "getitem retry self idx =
           (getitem retry (self\<lparr>consecutive_errors := consecutive_errors self + int k\<rparr>)
              (attempt_index n idx k))
           \<lparr>calls := concat (map (\<lambda>j. fst (try_block self (attempt_index n idx j))) [0..<k]) @
              calls (getitem retry (self\<lparr>consecutive_errors := consecutive_errors self + int k\<rparr>)
                (attempt_index n idx k))\<rparr>"
  using assms
proof (induction k)
  case 0
  show ?case by (simp add: attempt_index_def)
next
  case (Suc k)
  let ?s = "self\<lparr>consecutive_errors := consecutive_errors self + int k\<rparr>"
  let ?i = "attempt_index n idx k"
  let ?s' = "self\<lparr>consecutive_errors := consecutive_errors self + int (Suc k)\<rparr>"
  let ?i' = "attempt_index n idx (Suc k)"
  from Suc.prems have n: "len self = Inr n" "0 < n"
    by simp_all
  from Suc.prems obtain e where e: "prepare ?s ?i = Inl e" "is_Exception e"
    by auto
  have ce: "consecutive_errors ?s + 1 < retry"
    using Suc.prems by simp
  have nx: "next_index ?s ?i = Inr ?i'"
    using next_index_attempt [OF n] by simp
  have st: "?s\<lparr>consecutive_errors := consecutive_errors ?s + 1\<rparr> = ?s'"
    by (simp add: add.assoc)
  have step: "getitem retry ?s ?i =
      (getitem retry ?s' ?i')\<lparr>calls := fst (try_block self ?i) @ calls (getitem retry ?s' ?i')\<rparr>"
    using getitem_retry [OF e ce nx] by (simp only: st) simp
  have "getitem retry self idx =
      (getitem retry ?s ?i)\<lparr>calls :=
        concat (map (\<lambda>j. fst (try_block self (attempt_index n idx j))) [0..<k]) @
        calls (getitem retry ?s ?i)\<rparr>"
    using Suc by simp
  then show ?case
    by (simp add: step)
qed

subsection \<open>A case analysis and induction rule for \<open>getitem\<close>\<close>

lemma getitem_cases_induct [consumes 0, case_names success non_exception reraise index_error retry]:
  assumes success: "\<And>self idx ret. prepare self idx = Inr ret \<Longrightarrow> P self idx"
    and non_exception:
      "\<And>self idx e. prepare self idx = Inl e \<Longrightarrow> \<not> is_Exception e \<Longrightarrow> P self idx"
    and reraise:
      "\<And>self idx e. prepare self idx = Inl e \<Longrightarrow> is_Exception e \<Longrightarrow>
         \<not> consecutive_errors self + 1 < retry \<Longrightarrow> P self idx"
    and index_error:
      "\<And>self idx e e'. prepare self idx = Inl e \<Longrightarrow> is_Exception e \<Longrightarrow>
         consecutive_errors self + 1 < retry \<Longrightarrow> next_index self idx = Inl e' \<Longrightarrow> P self idx"
    and retry:
      "\<And>self idx e idx'. prepare self idx = Inl e \<Longrightarrow> is_Exception e \<Longrightarrow>
         consecutive_errors self + 1 < retry \<Longrightarrow> next_index self idx = Inr idx' \<Longrightarrow>
         P (self\<lparr>consecutive_errors := consecutive_errors self + 1\<rparr>) idx' \<Longrightarrow> P self idx"
  shows "P self idx"
proof -
  have "r = retry \<Longrightarrow> P self idx" for r
  proof (induction r self idx rule: getitem.induct)
    case (1 r' self idx)
    obtain log r where tb: "try_block self idx = (log, r)"
      by (cases "try_block self idx")
    show ?case
    proof (cases r)
      case (Inr ret)
      with tb have "prepare self idx = Inr ret"
        by (simp add: prepare_def)
      then show ?thesis by (rule success)
    next
      case (Inl e)
      with tb have p: "prepare self idx = Inl e"
        by (simp add: prepare_def)
      let ?s = "self\<lparr>consecutive_errors := consecutive_errors self + 1\<rparr>"
      show ?thesis
      proof (cases "is_Exception e")
        case False
        with p show ?thesis by (rule non_exception)
      next
        case True
        note exc = this
        show ?thesis
        proof (cases "consecutive_errors self + 1 < retry")
          case False
          with p exc show ?thesis by (rule reraise)
        next
          case True
          note below = this
          show ?thesis
          proof (cases "next_index self idx")
            case (Inl e')
            with p exc below show ?thesis by (rule index_error)
          next
            case (Inr idx')
            have "next_index ?s idx = Inr idx'"
              using Inr by simp
            then have "P ?s idx'"
              using 1(1) [OF tb [symmetric] Inl _ refl] exc below 1(2) by simp
            with p exc below Inr show ?thesis by (rule retry)
          qed
        qed
      qed
    qed
  qed
  then show ?thesis by simp
qed

subsection \<open>The preparation of a sample merges the outputs of the processors\<close>

lemma merge_outputs_append:
  "merge_outputs ret (xs @ ys) =
     (case merge_outputs ret xs of Inl e \<Rightarrow> Inl e | Inr r \<Rightarrow> merge_outputs r ys)"
  by (induction ret xs rule: merge_outputs.induct) simp_all

lemma snd_run_model_processors:
  "snd (run_model_processors self idx i m ps (log, ret)) =
     merge_outputs ret (modality_outputs self idx i m ps)"
proof (induction ps arbitrary: log ret)
  case Nil
  show ?case by (simp add: modality_outputs_def split: option.splits)
next
  case (Cons p ps)
  show ?case
  proof (cases "attrs self (attr_name m i)")
    case None
    then show ?thesis by (simp add: modality_outputs_def)
  next
    case (Some f)
    with Cons show ?thesis
      by (simp add: modality_outputs_def Let_def split: sum.splits)
  qed
qed

lemma snd_run_modalities:
  "snd (run_modalities self idx i g (log, ret)) = merge_outputs ret (group_outputs self idx i g)"
proof (induction g arbitrary: log ret)
  case Nil
  show ?case by (simp add: group_outputs_def)
next
  case (Cons mp g)
  obtain m ps where mp: "mp = (m, ps)" by (cases mp)
  obtain log' r where run: "run_model_processors self idx i m ps (log, ret) = (log', r)"
    by (cases "run_model_processors self idx i m ps (log, ret)")
  have r: "merge_outputs ret (modality_outputs self idx i m ps) = r"
    using snd_run_model_processors [of self idx i m ps log ret] run by simp
  have unfold: "group_outputs self idx i ((m, ps) # g) =
      modality_outputs self idx i m ps @ group_outputs self idx i g"
    by (simp add: group_outputs_def)
  show ?case
  proof (cases r)
    case (Inl e)
    with run r show ?thesis
      by (simp add: mp unfold merge_outputs_append)
  next
    case (Inr ret')
    with run r Cons [of log' ret'] show ?thesis
      by (simp add: mp unfold merge_outputs_append)
  qed
qed

lemma snd_run_groups:
  "snd (run_groups self idx i gs (log, ret)) =
     merge_outputs ret
       (concat (map (\<lambda>(i, g). group_outputs self idx i g) (enumerate i gs)))"
proof (induction gs arbitrary: i log ret)
  case Nil
  show ?case by simp
next
  case (Cons g gs)
  obtain log' r where run: "run_modalities self idx i g (log, ret) = (log', r)"
    by (cases "run_modalities self idx i g (log, ret)")
  have r: "merge_outputs ret (group_outputs self idx i g) = r"
    using snd_run_modalities [of self idx i g log ret] run by simp
  show ?case
  proof (cases r)
    case (Inl e)
    with run r show ?thesis
      by (simp add: merge_outputs_append)
  next
    case (Inr ret')
    with run r Cons [of "Suc i" log' ret'] show ?thesis
      by (simp add: merge_outputs_append)
  qed
qed

lemma prepare_merge_outputs:
  "prepare self idx = merge_outputs [] (processor_outputs self idx)"
  by (simp add: prepare_def try_block_def processor_outputs_def snd_run_groups)

lemma merge_outputs_Inr:
  "merge_outputs ret outs = Inr r \<Longrightarrow>
   r = foldl dict_update ret (returned outs) \<and> (\<forall>out\<in>set outs. \<exists>d. out = Inr d)"
  by (induction ret outs rule: merge_outputs.induct) auto

lemma merge_outputs_all_returned:
  "\<forall>out\<in>set outs. \<exists>d. out = Inr d \<Longrightarrow>
   merge_outputs ret outs = Inr (foldl dict_update ret (returned outs))"
  by (induction ret outs rule: merge_outputs.induct) auto

lemma prepare_merged_union:
  "prepare self idx = Inr ret \<Longrightarrow> ret = merged_union self idx"
  using merge_outputs_Inr [of "[]" "processor_outputs self idx" ret]
  by (simp add: prepare_merge_outputs merged_union_def)

lemma getitem_result_prepared:
  "result (getitem retry self idx) = Inr ret \<Longrightarrow> \<exists>j. prepare self j = Inr ret"
proof (induction retry self idx rule: getitem.induct)
  case (1 retry self idx)
  obtain log r where tb: "try_block self idx = (log, r)"
    by (cases "try_block self idx")
  show ?case
  proof (cases r)
    case (Inr ret')
    with tb have "prepare self idx = Inr ret'"
      by (simp add: prepare_def)
    with 1(2) show ?thesis
      using getitem_success [of self idx ret' retry] by auto
  next
    case (Inl e)
    with tb have p: "prepare self idx = Inl e"
      by (simp add: prepare_def)
    let ?s = "self\<lparr>consecutive_errors := consecutive_errors self + 1\<rparr>"
    show ?thesis
    proof (cases "is_Exception e \<and> consecutive_errors self + 1 < retry")
      case False
      show ?thesis
      proof (cases "is_Exception e")
        case True
        with False have "\<not> consecutive_errors self + 1 < retry" by simp
        from getitem_reraise [OF p True this] 1(2) show ?thesis by simp
      next
        case False
        from getitem_non_exception [OF p False, of retry] 1(2) show ?thesis by simp
      qed
    next
      case True
      show ?thesis
      proof (cases "next_index self idx")
        case (Inl e')
        then show ?thesis
          using 1(2) True getitem_index_error [OF p, of retry e'] by auto
      next
        case (Inr idx')
        have "result (getitem retry ?s idx') = Inr ret"
          using 1(2) True getitem_retry [OF p _ _ Inr, of retry] by simp
        moreover have "next_index ?s idx = Inr idx'"
          using Inr by simp
        ultimately have "\<exists>j. prepare ?s j = Inr ret"
          using 1(1) [OF tb [symmetric] Inl _ refl] True by simp
        then show ?thesis by simp
      qed
    qed
  qed
qed

subsection \<open>The processor invocations of the \<^verbatim>\<open>try\<close> block\<close>

lemma run_model_processors_calls:
  "set (fst (run_model_processors self idx i m ps (log, ret))) \<subseteq>
     set log \<union> {c. call_group c = i \<and> call_modality c = m \<and> call_processor c \<in> set ps \<and>
       attrs self (attr_name m i) = Some (call_features c) \<and> call_idx c = idx \<and>
       call_is_training c = is_training self}"
proof (induction ps arbitrary: log ret)
  case Nil
  show ?case by simp
next
  case (Cons p ps)
  show ?case
  proof (cases "attrs self (attr_name m i)")
    case None
    then show ?thesis by simp
  next
    case (Some f)
    show ?thesis
    proof (cases "f = []")
      case True
      with Some Cons [of log ret] show ?thesis by auto
    next
      case False
      let ?c = "\<lparr>call_group = i, call_modality = m, call_processor = p, call_features = f,
        call_idx = idx, call_is_training = is_training self\<rparr>"
      show ?thesis
      proof (cases "p f idx (is_training self)")
        case (Inl e)
        with Some False show ?thesis by (auto simp: Let_def)
      next
        case (Inr d)
        with Some False Cons [of "log @ [?c]" "dict_update ret d"] show ?thesis
          by (auto simp: Let_def)
      qed
    qed
  qed
qed

lemma run_modalities_calls:
  "set (fst (run_modalities self idx i g (log, ret))) \<subseteq>
     set log \<union> {c. call_group c = i \<and>
       (\<exists>ps. (call_modality c, ps) \<in> set g \<and> call_processor c \<in> set ps) \<and>
       attrs self (attr_name (call_modality c) i) = Some (call_features c) \<and>
       call_idx c = idx \<and> call_is_training c = is_training self}"
proof (induction g arbitrary: log ret)
  case Nil
  show ?case by simp
next
  case (Cons mp g)
  obtain m ps where mp: "mp = (m, ps)" by (cases mp)
  obtain log' r where run: "run_model_processors self idx i m ps (log, ret) = (log', r)"
    by (cases "run_model_processors self idx i m ps (log, ret)")
  have log': "set log' \<subseteq>
     set log \<union> {c. call_group c = i \<and> call_modality c = m \<and> call_processor c \<in> set ps \<and>
       attrs self (attr_name m i) = Some (call_features c) \<and> call_idx c = idx \<and>
       call_is_training c = is_training self}"
    using run_model_processors_calls [of self idx i m ps log ret] run by simp
  show ?case
  proof (cases r)
    case (Inl e)
    with run log' show ?thesis
      by (auto simp: mp)
  next
    case (Inr ret')
    with run log' Cons [of log' ret'] show ?thesis
      by (simp add: mp) blast
  qed
qed

lemma run_groups_calls:
  "set (fst (run_groups self idx i gs (log, ret))) \<subseteq>
     set log \<union> {c. i \<le> call_group c \<and> call_group c < i + length gs \<and>
       (\<exists>ps. (call_modality c, ps) \<in> set (gs ! (call_group c - i)) \<and>
          call_processor c \<in> set ps) \<and>
       attrs self (attr_name (call_modality c) (call_group c)) = Some (call_features c) \<and>
       call_idx c = idx \<and> call_is_training c = is_training self}"
proof (induction gs arbitrary: i log ret)
  case Nil
  show ?case by simp
next
  case (Cons g gs)
  obtain log' r where run: "run_modalities self idx i g (log, ret) = (log', r)"
    by (cases "run_modalities self idx i g (log, ret)")
  have log': "set log' \<subseteq>
     set log \<union> {c. call_group c = i \<and>
       (\<exists>ps. (call_modality c, ps) \<in> set g \<and> call_processor c \<in> set ps) \<and>
       attrs self (attr_name (call_modality c) i) = Some (call_features c) \<and>
       call_idx c = idx \<and> call_is_training c = is_training self}"
    using run_modalities_calls [of self idx i g log ret] run by simp
  have head: "c \<in> set log' \<Longrightarrow> c \<in> set log \<union> {c. i \<le> call_group c \<and> call_group c < i + length (g # gs) \<and>
       (\<exists>ps. (call_modality c, ps) \<in> set ((g # gs) ! (call_group c - i)) \<and>
          call_processor c \<in> set ps) \<and>
       attrs self (attr_name (call_modality c) (call_group c)) = Some (call_features c) \<and>
       call_idx c = idx \<and> call_is_training c = is_training self}" for c
  proof -
    assume "c \<in> set log'"
    with log' have "c \<in> set log \<or> (call_group c = i \<and>
       (\<exists>ps. (call_modality c, ps) \<in> set g \<and> call_processor c \<in> set ps) \<and>
       attrs self (attr_name (call_modality c) i) = Some (call_features c) \<and>
       call_idx c = idx \<and> call_is_training c = is_training self)"
      by blast
    then show ?thesis by auto
  qed
  show ?case
  proof (cases r)
    case (Inl e)
    with run head show ?thesis
      by auto
  next
    case (Inr ret')
    have tail: "c \<in> set (fst (run_groups self idx (Suc i) gs (log', ret'))) \<Longrightarrow>
       c \<in> set log \<union> {c. i \<le> call_group c \<and> call_group c < i + length (g # gs) \<and>
       (\<exists>ps. (call_modality c, ps) \<in> set ((g # gs) ! (call_group c - i)) \<and>
          call_processor c \<in> set ps) \<and>
       attrs self (attr_name (call_modality c) (call_group c)) = Some (call_features c) \<and>
       call_idx c = idx \<and> call_is_training c = is_training self}" for c
    proof -
      assume "c \<in> set (fst (run_groups self idx (Suc i) gs (log', ret')))"
      with Cons [of "Suc i" log' ret'] consider "c \<in> set log'"
        | "Suc i \<le> call_group c" "call_group c < Suc i + length gs"
          "\<exists>ps. (call_modality c, ps) \<in> set (gs ! (call_group c - Suc i)) \<and>
             call_processor c \<in> set ps"
          "attrs self (attr_name (call_modality c) (call_group c)) = Some (call_features c)"
          "call_idx c = idx" "call_is_training c = is_training self"
        by auto
      then show ?thesis
      proof cases
        case 1
        then show ?thesis by (rule head)
      next
        case 2
        from 2(1) have "(g # gs) ! (call_group c - i) = gs ! (call_group c - Suc i)"
          by (simp add: nth_Cons') 
        with 2 show ?thesis by simp
      qed
    qed
    from run Inr tail show ?thesis
      by auto
  qed
qed

lemma try_block_calls:
  assumes "c \<in> set (fst (try_block self idx))"
  shows "call_group c < length (processors self) \<and>
    (\<exists>ps. (call_modality c, ps) \<in> set (processors self ! call_group c) \<and>
       call_processor c \<in> set ps) \<and>
    attrs self (attr_name (call_modality c) (call_group c)) = Some (call_features c) \<and>
    call_idx c = idx \<and> call_is_training c = is_training self"
  using run_groups_calls [of self idx 0 "processors self" "[]" "[]"] assms
  by (auto simp: try_block_def)

subsection \<open>The constructor\<close>

lemma init_modalities_Inr:
  assumes "init_modalities pre data i ms (at, ls) = Inr (at', ls')"
  shows "(\<forall>m\<in>set ms. features_of pre data m \<noteq> None) \<and>
    ls' = ls @ concat (map (\<lambda>m. sample_count (features_of pre data m)) ms) \<and>
    (\<forall>m\<in>set ms. at' (attr_name m i) = features_of pre data m) \<and>
    (\<forall>name. name \<notin> (\<lambda>m. attr_name m i) ` set ms \<longrightarrow> at' name = at name)"
  using assms
proof (induction ms arbitrary: at ls)
  case Nil
  then show ?case by simp
next
  case (Cons m ms)
  from Cons.prems obtain t f where t: "pre (transform_name m) = Some t" "t data = Inr f"
    by (auto split: option.splits sum.splits)
  have fo: "features_of pre data m = Some f"
    using t by (simp add: features_of_def)
  let ?at = "at(attr_name m i \<mapsto> f)"
  let ?ls = "if f \<noteq> [] then ls @ [length (snd (hd f))] else ls"
  have rest: "init_modalities pre data i ms (?at, ?ls) = Inr (at', ls')"
    using Cons.prems t by simp
  note IH = Cons.IH [OF rest]
  have ls: "?ls = ls @ sample_count (features_of pre data m)"
    by (simp add: fo sample_count_def)
  have head: "at' (attr_name m i) = features_of pre data m"
  proof (cases "m \<in> set ms")
    case True
    with IH show ?thesis by simp
  next
    case False
    then have "attr_name m i \<notin> (\<lambda>m. attr_name m i) ` set ms"
      by (auto simp: attr_name_inj)
    with IH have "at' (attr_name m i) = ?at (attr_name m i)"
      by blast
    then show ?thesis by (simp add: fo)
  qed
  have frame: "at' name = at name" if "name \<notin> (\<lambda>m. attr_name m i) ` set (m # ms)" for name
  proof -
    from that have "name \<notin> (\<lambda>m. attr_name m i) ` set ms" "name \<noteq> attr_name m i"
      by auto
    with IH have "at' name = ?at name" by blast
    with \<open>name \<noteq> attr_name m i\<close> show ?thesis by simp
  qed
  show ?case
    using IH fo head frame by (simp add: ls)
qed

lemma init_modalities_total:
  assumes "\<forall>m\<in>set ms. features_of pre data m \<noteq> None"
  shows "\<exists>st'. init_modalities pre data i ms st = Inr st'"
  using assms
proof (induction ms arbitrary: st)
  case Nil
  show ?case by simp
next
  case (Cons m ms)
  obtain at ls where st: "st = (at, ls)" by (cases st)
  from Cons.prems obtain f where "features_of pre data m = Some f"
    by auto
  then obtain t where t: "pre (transform_name m) = Some t" "t data = Inr f"
    by (auto simp: features_of_def split: option.splits sum.splits)
  from Cons.prems have "\<forall>m\<in>set ms. features_of pre data m \<noteq> None"
    by simp
  from Cons.IH [OF this] t show ?case
    by (simp add: st)
qed

lemma init_groups_Inr:
  assumes "init_groups data i zs (at, ls) = Inr (at', ls')"
  shows "(\<forall>k<length zs. \<forall>m\<in>fst ` set (snd (zs ! k)).
       features_of (fst (zs ! k)) data m \<noteq> None \<and>
       at' (attr_name m (i + k)) = features_of (fst (zs ! k)) data m) \<and>
    ls' = ls @ sample_counts data zs \<and>
    (\<forall>name. (\<forall>k<length zs. \<forall>m\<in>fst ` set (snd (zs ! k)). name \<noteq> attr_name m (i + k)) \<longrightarrow>
       at' name = at name)"
  using assms
proof (induction zs arbitrary: i at ls)
  case Nil
  then show ?case by (simp add: sample_counts_def)
next
  case (Cons z zs)
  obtain pre g where z: "z = (pre, g)" by (cases z)
  from Cons.prems obtain at1 ls1 where
    head: "init_modalities pre data i (map fst g) (at, ls) = Inr (at1, ls1)"
    and rest: "init_groups data (Suc i) zs (at1, ls1) = Inr (at', ls')"
    by (auto simp: z split: sum.splits)
  note H = init_modalities_Inr [OF head]
  note IH = Cons.IH [OF rest]
  have counts: "sample_counts data (z # zs) =
      concat (map (\<lambda>m. sample_count (features_of pre data m)) (map fst g)) @ sample_counts data zs"
    by (simp add: sample_counts_def z)
  have lens: "ls' = ls @ sample_counts data (z # zs)"
    using H IH by (simp add: counts)
  have stored: "features_of (fst ((z # zs) ! k)) data m \<noteq> None \<and>
      at' (attr_name m (i + k)) = features_of (fst ((z # zs) ! k)) data m"
    if "k < length (z # zs)" "m \<in> fst ` set (snd ((z # zs) ! k))" for k m
  proof (cases k)
    case 0
    with that have m: "m \<in> set (map fst g)"
      by (simp add: z)
    have "\<forall>k<length zs. \<forall>m'\<in>fst ` set (snd (zs ! k)). attr_name m i \<noteq> attr_name m' (Suc i + k)"
      by (simp add: attr_name_inj)
    with IH have "at' (attr_name m i) = at1 (attr_name m i)"
      by blast
    moreover from H m have "features_of pre data m \<noteq> None \<and>
        at1 (attr_name m i) = features_of pre data m"
      by blast
    ultimately show ?thesis
      by (simp add: 0 z)
  next
    case (Suc k')
    with that have "k' < length zs" "m \<in> fst ` set (snd (zs ! k'))"
      by simp_all
    with IH have "features_of (fst (zs ! k')) data m \<noteq> None \<and>
        at' (attr_name m (Suc i + k')) = features_of (fst (zs ! k')) data m"
      by blast
    then show ?thesis by (simp add: Suc)
  qed
  have frame: "at' name = at name"
    if "\<forall>k<length (z # zs). \<forall>m\<in>fst ` set (snd ((z # zs) ! k)). name \<noteq> attr_name m (i + k)"
    for name
  proof -
    have "\<forall>k<length zs. \<forall>m\<in>fst ` set (snd (zs ! k)). name \<noteq> attr_name m (Suc i + k)"
    proof (intro allI impI ballI)
      fix k m
      assume "k < length zs" "m \<in> fst ` set (snd (zs ! k))"
      with that [rule_format, of "Suc k" m] show "name \<noteq> attr_name m (Suc i + k)"
        by simp
    qed
    with IH have "at' name = at1 name" by blast
    moreover have "name \<notin> (\<lambda>m. attr_name m i) ` set (map fst g)"
      using that [rule_format, of 0] by (auto simp: z)
    with H have "at1 name = at name" by blast
    ultimately show ?thesis by simp
  qed
  show ?case
    using stored lens frame by blast
qed

lemma init_groups_total:
  assumes "\<forall>(pre, g)\<in>set zs. \<forall>m\<in>fst ` set g. features_of pre data m \<noteq> None"
  shows "\<exists>st'. init_groups data i zs st = Inr st'"
  using assms
proof (induction zs arbitrary: i st)
  case Nil
  show ?case by simp
next
  case (Cons z zs)
  obtain pre g where z: "z = (pre, g)" by (cases z)
  from Cons.prems have "\<forall>m\<in>set (map fst g). features_of pre data m \<noteq> None"
    by (simp add: z)
  from init_modalities_total [OF this] obtain st1 where
    "init_modalities pre data i (map fst g) st = Inr st1"
    by blast
  moreover from Cons.prems have "\<forall>(pre, g)\<in>set zs. \<forall>m\<in>fst ` set g. features_of pre data m \<noteq> None"
    by simp
  from Cons.IH [OF this] obtain st' where "init_groups data (Suc i) zs st1 = Inr st'"
    by blast
  ultimately show ?case
    by (simp add: z)
qed

lemma remdups_singleton: "length (remdups ls) = 1 \<longleftrightarrow> (\<exists>n. set ls = {n})"
  by (simp add: length_remdups_card_conv card_1_singleton_iff)

lemma init_Inr:
  assumes "init data preprocessor procs training = Inr self"
  shows "processors self = procs \<and> is_training self = training \<and>
    consecutive_errors self = 0 \<and>
    lengths self = sample_counts data (zip preprocessor procs) \<and>
    (\<exists>n. set (lengths self) = {n}) \<and>
    init_groups data 0 (zip preprocessor procs) (Map.empty, []) = Inr (attrs self, lengths self)"
proof -
  from assms obtain at ls where
    groups: "init_groups data 0 (zip preprocessor procs) (Map.empty, []) = Inr (at, ls)"
    and one: "length (remdups ls) = 1"
    and self: "self = \<lparr>processors = procs, is_training = training, consecutive_errors = 0,
      lengths = ls, attrs = at\<rparr>"
    by (auto simp: init_def split: sum.splits if_splits)
  from init_groups_Inr [OF groups] have "ls = sample_counts data (zip preprocessor procs)"
    by simp
  moreover from one have "\<exists>n. set ls = {n}"
    by (simp only: remdups_singleton)
  ultimately show ?thesis
    using groups by (simp add: self)
qed

lemma len_singleton:
  assumes "set (lengths self) = {n}"
  shows "len self = Inr n" "hd (lengths self) = n"
  using assms by (cases "lengths self"; auto simp: len_def)+

subsection \<open>Dictionaries as mappings\<close>








subsection \<open>What the constructor stores\<close>


lemma init_stored:
  assumes "init data preprocessor procs training = Inr self"
    and "i < length preprocessor" "i < length procs" "m \<in> fst ` set (procs ! i)"
  shows "features_of (preprocessor ! i) data m \<noteq> None \<and>
    attrs self (attr_name m i) = features_of (preprocessor ! i) data m"
proof -
  let ?zs = "zip preprocessor procs"
  from init_Inr [OF assms(1)] have
    "init_groups data 0 ?zs (Map.empty, []) = Inr (attrs self, lengths self)"
    by simp
  from init_groups_Inr [OF this]
  have all: "\<forall>k<length ?zs. \<forall>m\<in>fst ` set (snd (?zs ! k)).
       features_of (fst (?zs ! k)) data m \<noteq> None \<and>
       attrs self (attr_name m (0 + k)) = features_of (fst (?zs ! k)) data m"
    by (rule conjunct1)
  have i: "i < length ?zs" "?zs ! i = (preprocessor ! i, procs ! i)"
    using assms(2,3) by simp_all
  from all i(1) have "\<forall>m\<in>fst ` set (snd (?zs ! i)).
       features_of (fst (?zs ! i)) data m \<noteq> None \<and>
       attrs self (attr_name m (0 + i)) = features_of (fst (?zs ! i)) data m"
    by blast
  then have "\<forall>m\<in>fst ` set (procs ! i).
       features_of (preprocessor ! i) data m \<noteq> None \<and>
       attrs self (attr_name m i) = features_of (preprocessor ! i) data m"
    by (simp only: i(2) fst_conv snd_conv add_0)
  with assms(4) show ?thesis by blast
qed

lemma init_stored_only:
  assumes "init data preprocessor procs training = Inr self"
    and "attrs self name = Some f"
  shows "\<exists>i<min (length preprocessor) (length procs). \<exists>m\<in>fst ` set (procs ! i).
    name = attr_name m i"
proof (rule ccontr)
  let ?zs = "zip preprocessor procs"
  assume no: "\<not> (\<exists>i<min (length preprocessor) (length procs). \<exists>m\<in>fst ` set (procs ! i).
    name = attr_name m i)"
  from init_Inr [OF assms(1)] have
    "init_groups data 0 ?zs (Map.empty, []) = Inr (attrs self, lengths self)"
    by simp
  from init_groups_Inr [OF this]
  have frame: "(\<forall>k<length ?zs. \<forall>m\<in>fst ` set (snd (?zs ! k)).
      name \<noteq> attr_name m (0 + k)) \<longrightarrow> attrs self name = Map.empty name"
    by blast
  have "name \<noteq> attr_name m (0 + k)" if "k < length ?zs" "m \<in> fst ` set (snd (?zs ! k))" for k m
  proof -
    from that(1) have k: "k < min (length preprocessor) (length procs)"
      by simp
    then have "?zs ! k = (preprocessor ! k, procs ! k)"
      by simp
    with that(2) have "m \<in> fst ` set (procs ! k)"
      by (simp only: snd_conv)
    with no k show ?thesis
      by auto
  qed
  with frame have "attrs self name = None"
    by blast
  with assms(2) show False
    by simp
qed

lemma in_concat_map: "a \<in> set as \<Longrightarrow> x \<in> set (f a) \<Longrightarrow> x \<in> set (concat (map f as))"
  by auto

lemma sample_counts_member:
  assumes "(pre, g) \<in> set zs" "m \<in> fst ` set g"
    and "features_of pre data m = Some f" "f \<noteq> []"
  shows "length (snd (hd f)) \<in> set (sample_counts data zs)"
proof -
  have "length (snd (hd f)) \<in> set (sample_count (features_of pre data m))"
    using assms(3,4) by (simp add: sample_count_def)
  moreover have "m \<in> set (map fst g)"
    using assms(2) by simp
  ultimately have "length (snd (hd f)) \<in>
      set (concat (map (\<lambda>m. sample_count (features_of pre data m)) (map fst g)))"
    by (rule in_concat_map [rotated])
  then have "length (snd (hd f)) \<in>
      set ((\<lambda>(per_preprocessor, per_processors_group).
         concat (map (\<lambda>per_modality. sample_count (features_of per_preprocessor data per_modality))
           (map fst per_processors_group))) (pre, g))"
    by simp
  with assms(1) show ?thesis
    unfolding sample_counts_def by (rule in_concat_map)
qed

subsection \<open>Facts about whole calls of \<open>getitem\<close>\<close>

lemma next_index_range:
  assumes "next_index self idx = Inr idx'"
  shows "\<exists>n. len self = Inr n \<and> 0 \<le> idx' \<and> idx' < int n"
  using assms by (auto simp: next_index_def split: sum.splits if_splits)

lemma getitem_calls:
  "\<forall>c\<in>set (calls (getitem retry self idx)).
     call_group c < length (processors self) \<and>
     (\<exists>ps. (call_modality c, ps) \<in> set (processors self ! call_group c) \<and>
        call_processor c \<in> set ps) \<and>
     attrs self (attr_name (call_modality c) (call_group c)) = Some (call_features c) \<and>
     call_is_training c = is_training self \<and>
     (call_idx c = idx \<or> (\<exists>n. len self = Inr n \<and> 0 \<le> call_idx c \<and> call_idx c < int n))"
proof (induction self idx rule: getitem_cases_induct [where retry = retry])
  case (success self idx ret)
  then show ?case
    using try_block_calls [of _ self idx] by (simp add: getitem_success)
next
  case (non_exception self idx e)
  then show ?case
    using try_block_calls [of _ self idx] by (simp add: getitem_non_exception)
next
  case (reraise self idx e)
  then show ?case
    using try_block_calls [of _ self idx] by (simp add: getitem_reraise)
next
  case (index_error self idx e e')
  then show ?case
    using try_block_calls [of _ self idx] by (simp add: getitem_index_error)
next
  case (retry self idx e idx')
  let ?s = "self\<lparr>consecutive_errors := consecutive_errors self + 1\<rparr>"
  from next_index_range [OF retry(4)] obtain n where
    n: "len self = Inr n" "0 \<le> idx'" "idx' < int n"
    by blast
  have calls: "calls (getitem retry self idx) =
      fst (try_block self idx) @ calls (getitem retry ?s idx')"
    using getitem_retry [OF retry(1-4)] by simp
  show ?case
  proof
    fix c
    assume "c \<in> set (calls (getitem retry self idx))"
    then consider "c \<in> set (fst (try_block self idx))"
      | "c \<in> set (calls (getitem retry ?s idx'))"
      by (auto simp: calls)
    then show "call_group c < length (processors self) \<and>
     (\<exists>ps. (call_modality c, ps) \<in> set (processors self ! call_group c) \<and>
        call_processor c \<in> set ps) \<and>
     attrs self (attr_name (call_modality c) (call_group c)) = Some (call_features c) \<and>
     call_is_training c = is_training self \<and>
     (call_idx c = idx \<or> (\<exists>n. len self = Inr n \<and> 0 \<le> call_idx c \<and> call_idx c < int n))"
    proof cases
      case 1
      from try_block_calls [OF this] show ?thesis by simp
    next
      case 2
      with retry.IH n show ?thesis by auto
    qed
  qed
qed

lemma getitem_success_state:
  "\<forall>ret. result (getitem retry self idx) = Inr ret \<longrightarrow>
     state (getitem retry self idx) = self\<lparr>consecutive_errors := 0\<rparr>"
proof (induction self idx rule: getitem_cases_induct [where retry = retry])
  case (retry self idx e idx')
  then show ?case
    using getitem_retry [OF retry(1-4)] by simp
qed (simp_all add: getitem_success getitem_non_exception getitem_reraise getitem_index_error)

lemma getitem_after_failures:
  assumes "0 < k \<longrightarrow> len self = Inr n \<and> 0 < n"
    and "\<forall>j<k. \<exists>e. prepare self (attempt_index n idx j) = Inl e \<and> is_Exception e"
    and "prepare self (attempt_index n idx k) = Inr ret"
    and "consecutive_errors self + int k < retry"
  shows "result (getitem retry self idx) = Inr ret"
    and "state (getitem retry self idx) = self\<lparr>consecutive_errors := 0\<rparr>"
proof -
  let ?s = "self\<lparr>consecutive_errors := consecutive_errors self + int k\<rparr>"
  have "prepare ?s (attempt_index n idx k) = Inr ret"
    using assms(3) by simp
  from getitem_success [OF this, of retry] getitem_skip_failures [OF assms(1,2,4)]
  show "result (getitem retry self idx) = Inr ret"
    and "state (getitem retry self idx) = self\<lparr>consecutive_errors := 0\<rparr>"
    by simp_all
qed

lemma getitem_calls_in_range:
  assumes "len self = Inr n" "0 \<le> idx" "idx < int n"
    and "c \<in> set (calls (getitem retry self idx))"
  shows "0 \<le> call_idx c \<and> call_idx c < int n"
proof -
  from getitem_calls [of retry self idx, THEN bspec, OF assms(4)]
  have "call_idx c = idx \<or> (\<exists>n. len self = Inr n \<and> 0 \<le> call_idx c \<and> call_idx c < int n)"
    by (elim conjE)
  then show ?thesis
  proof
    assume "call_idx c = idx"
    with assms(2,3) show ?thesis by simp
  next
    assume "\<exists>n. len self = Inr n \<and> 0 \<le> call_idx c \<and> call_idx c < int n"
    then obtain n' where "len self = Inr n'" "0 \<le> call_idx c" "call_idx c < int n'"
      by (elim exE conjE)
    with assms(1) show ?thesis by simp
  qed
qed

text \<open>
  On a dataset without samples there is no next index: the remainder by the length
  raises \<^verbatim>\<open>ZeroDivisionError\<close> in the handler.
\<close>

lemma getitem_empty_dataset:
  assumes "prepare self idx = Inl e" "is_Exception e"
    and "consecutive_errors self + 1 < retry" "len self = Inr 0"
  shows "result (getitem retry self idx) = Inl ZeroDivisionError"
proof -
  have "next_index self idx = Inl ZeroDivisionError"
    using assms(4) by (simp add: next_index_def)
  from getitem_index_error [OF assms(1-3) this] show ?thesis
    by simp
qed

subsection \<open>The small dataset, evaluated\<close>

lemma digit_char_0: "digit_char 0 = CHR ''0''"
proof -
  have "(of_char CHR ''0'' :: nat) = 48" by simp
  then have "char_of (48 :: nat) = char_of (of_char CHR ''0'' :: nat)" by (simp only:)
  then show ?thesis unfolding digit_char_def by (simp only: char_of_char add_0_right)
qed

lemma str_nat_0: "str_nat 0 = ''0''"
  by (simp add: str_nat.simps digit_char_0)

lemma example_init:
  "init example_data [example_preprocessor] example_processors True = Inr example_dataset"
  by (simp add: init_def example_preprocessor_def example_processors_def example_data_def
      example_dataset_def transform_name_def attr_name_def str_nat_0 select_column_def)

lemma example_len: "len example_dataset = Inr 3"
  by (simp add: len_def example_dataset_def)

lemma example_prepare_0:
  "prepare example_dataset 0 = Inr [(''text_token_ids'', 5), (''text_segment_ids'', 5), (''label'', 0)]"
  by (simp add: prepare_def try_block_def example_dataset_def example_processors_def
      attr_name_def str_nat_0 column_processor_def)

lemma example_prepare_1:
  "prepare example_dataset 1 = Inl (OtherException ''corrupt sample'')"
  by (simp add: prepare_def try_block_def example_dataset_def example_processors_def
      attr_name_def str_nat_0 column_processor_def)

lemma example_prepare_2:
  "prepare example_dataset 2 = Inl (OtherException ''corrupt sample'')"
  by (simp add: prepare_def try_block_def example_dataset_def example_processors_def
      attr_name_def str_nat_0 column_processor_def)

lemma example_counter: "consecutive_errors example_dataset = 0"
  by (simp add: example_dataset_def)

lemma example_try_block_0:
  "fst (try_block example_dataset 0) =
     [\<lparr>call_group = 0, call_modality = ''text'',
       call_processor = column_processor ''text_token_ids'',
       call_features = [(''text'', [5, - 1, - 1])], call_idx = 0, call_is_training = True\<rparr>,
      \<lparr>call_group = 0, call_modality = ''text'',
       call_processor = column_processor ''text_segment_ids'',
       call_features = [(''text'', [5, - 1, - 1])], call_idx = 0, call_is_training = True\<rparr>,
      \<lparr>call_group = 0, call_modality = ''label'',
       call_processor = column_processor ''label'',
       call_features = [(''label'', [0, 1, 0])], call_idx = 0, call_is_training = True\<rparr>]"
  by (simp add: try_block_def example_dataset_def example_processors_def
      attr_name_def str_nat_0 column_processor_def)

lemma example_calls_0:
  "calls (getitem retry example_dataset 0) = fst (try_block example_dataset 0)"
  using getitem_success [OF example_prepare_0, of retry] by simp

lemma example_attempts_from_2:
  "attempt_index 3 2 0 = 2" "attempt_index 3 2 (Suc 0) = 0"
  by (simp_all add: attempt_index_def)

lemma example_getitem_2:
  "result (getitem 2 example_dataset 2) =
     Inr [(''text_token_ids'', 5), (''text_segment_ids'', 5), (''label'', 0)]"
  using getitem_after_failures(1) [of 1 example_dataset 3 2
      "[(''text_token_ids'', 5), (''text_segment_ids'', 5), (''label'', 0)]" 2]
  by (simp add: example_len example_prepare_0 example_prepare_2 example_counter
      example_attempts_from_2)

lemma example_features:
  "features_of example_preprocessor d ''text'' = Some (case map_of d ''text'' of None \<Rightarrow> [] | Some col \<Rightarrow> [(''text'', col)])"
  "features_of example_preprocessor d ''image'' = Some (case map_of d ''image'' of None \<Rightarrow> [] | Some col \<Rightarrow> [(''image'', col)])"
  "features_of example_preprocessor d ''label'' = Some (case map_of d ''label'' of None \<Rightarrow> [] | Some col \<Rightarrow> [(''label'', col)])"
  by (simp_all add: features_of_def example_preprocessor_def transform_name_def select_column_def
      split: option.splits)

lemma example_transforms:
  "\<forall>(pre, g)\<in>set (zip [example_preprocessor] example_processors). \<forall>m\<in>fst ` set g.
     features_of pre d m \<noteq> None"
  by (simp add: example_processors_def example_features)

lemma example_sample_counts:
  "sample_counts example_data (zip [example_preprocessor] example_processors) = [3, 3]"
  "sample_counts ragged_data (zip [example_preprocessor] example_processors) = [3, 2]"
  by (simp_all add: sample_counts_def sample_count_def example_processors_def example_features
      example_data_def ragged_data_def)

section \<open>The properties\<close>

subsection \<open>Bounded retry\<close>

text \<open>
  \<^bold>\<open>C1\<close>. If the preparation of a sample raises an exception, \<open>getitem\<close> tolerates it
  and tries again, but only a bounded number of times. With \<open>c\<close> consecutive errors
  counted so far, a call makes at most \<open>max 1 (retry - c)\<close> attempts: when all of them
  raise (an \<^verbatim>\<open>Exception\<close>), the call makes exactly these attempts, at its own index and
  then at the following indices, raises the exception of the last attempt, and leaves
  the counter at the bound or above it. A retry needs the next index, so the dataset
  holds at least one sample whenever more than one attempt is made.
\<close>

theorem getitem_bounded_retry:
  assumes "attempts = nat (max 1 (retry - consecutive_errors self))"
    and "1 < attempts \<longrightarrow> len self = Inr n \<and> 0 < n"
    and "\<forall>j<attempts. prepare self (attempt_index n idx j) = Inl (e j) \<and> is_Exception (e j)"
  shows "result (getitem retry self idx) = Inl (e (attempts - 1)) \<and>
         state (getitem retry self idx) =
           self\<lparr>consecutive_errors := consecutive_errors self + int attempts\<rparr> \<and>
         retry \<le> consecutive_errors (state (getitem retry self idx)) \<and>
         calls (getitem retry self idx) =
           concat (map (\<lambda>j. fst (try_block self (attempt_index n idx j))) [0..<attempts])"
proof -
  define k where "k = attempts - 1"
  have a: "attempts = Suc k"
    using assms(1) by (simp add: k_def)
  let ?s = "self\<lparr>consecutive_errors := consecutive_errors self + int k\<rparr>"
  let ?i = "attempt_index n idx k"
  have bound: "consecutive_errors self + int k < retry" if "0 < k"
    using that assms(1) a by linarith
  have last: "\<not> consecutive_errors ?s + 1 < retry"
    using assms(1) a by simp
  have e: "prepare ?s ?i = Inl (e k)" "is_Exception (e k)"
    using assms(3) a by simp_all
  have final: "getitem retry ?s ?i =
      \<lparr>calls = fst (try_block self ?i), result = Inl (e k),
       state = self\<lparr>consecutive_errors := consecutive_errors self + int attempts\<rparr>\<rparr>"
    using getitem_reraise [OF e last] by (simp add: a add.assoc)
  have chain: "getitem retry self idx =
      (getitem retry ?s ?i)\<lparr>calls :=
        concat (map (\<lambda>j. fst (try_block self (attempt_index n idx j))) [0..<k]) @
        calls (getitem retry ?s ?i)\<rparr>"
  proof (cases "k = 0")
    case True
    then show ?thesis by (simp add: attempt_index_def)
  next
    case False
    then have "0 < k" by simp
    show ?thesis
    proof (rule getitem_skip_failures)
      show "0 < k \<longrightarrow> len self = Inr n \<and> 0 < n"
        using assms(2) a by simp
      show "\<forall>j<k. \<exists>e. prepare self (attempt_index n idx j) = Inl e \<and> is_Exception e"
        using assms(3) a by auto
      show "consecutive_errors self + int k < retry"
        using bound [OF \<open>0 < k\<close>] .
    qed
  qed
  have "retry \<le> consecutive_errors self + int attempts"
    using assms(1) by linarith
  then show ?thesis
    by (simp add: chain final a)
qed

theorem getitem_bounded_retry_witness:
  "prepare example_dataset 1 = Inl (OtherException ''corrupt sample'') \<and>
   prepare example_dataset 2 = Inl (OtherException ''corrupt sample'') \<and>
   result (getitem 2 example_dataset 1) = Inl (OtherException ''corrupt sample'') \<and>
   consecutive_errors (state (getitem 2 example_dataset 1)) = 2"
  using getitem_bounded_retry [of 2 2 example_dataset 3 1 "\<lambda>j. OtherException ''corrupt sample''"]
  by (simp add: example_len example_prepare_1 example_prepare_2 attempt_index_def
      less_2_cases_iff example_counter)

subsection \<open>Substitution of the next sample that can be prepared\<close>

text \<open>
  \<^bold>\<open>C2\<close>. If the preparation of sample \<open>idx\<close> fails and the bound on consecutive errors
  is not reached, \<open>getitem\<close> returns what it returns for the next index,
  \<open>(idx + 1) mod n\<close> on a dataset of \<open>n > 0\<close> samples: when the first \<open>k\<close> attempts
  raise, the attempt after them succeeds and the counter stays below the bound, the
  call returns the dictionary of that attempt, the first index after \<open>idx\<close>, wrapping
  around past the last one, whose preparation succeeds.
\<close>

theorem getitem_substitution:
  assumes "0 < k \<longrightarrow> len self = Inr n \<and> 0 < n"
    and "\<forall>j<k. \<exists>e. prepare self (attempt_index n idx j) = Inl e \<and> is_Exception e"
    and "prepare self (attempt_index n idx k) = Inr ret"
    and "consecutive_errors self + int k < retry"
  shows "result (getitem retry self idx) = Inr ret \<and>
         state (getitem retry self idx) = self\<lparr>consecutive_errors := 0\<rparr> \<and>
         (0 < k \<longrightarrow>
            result (getitem retry self idx) =
              result (getitem retry
                (self\<lparr>consecutive_errors := consecutive_errors self + 1\<rparr>)
                ((idx + 1) mod int n)))"
proof -
  let ?s = "self\<lparr>consecutive_errors := consecutive_errors self + int k\<rparr>"
  let ?i = "attempt_index n idx k"
  have chain: "getitem retry self idx =
      (getitem retry ?s ?i)\<lparr>calls :=
        concat (map (\<lambda>j. fst (try_block self (attempt_index n idx j))) [0..<k]) @
        calls (getitem retry ?s ?i)\<rparr>"
    using assms(1,2,4) by (rule getitem_skip_failures)
  have "prepare ?s ?i = Inr ret"
    using assms(3) by simp
  from getitem_success [OF this, of retry]
  have main: "result (getitem retry self idx) = Inr ret \<and>
      state (getitem retry self idx) = self\<lparr>consecutive_errors := 0\<rparr>"
    by (simp add: chain)
  have one: "result (getitem retry self idx) =
      result (getitem retry (self\<lparr>consecutive_errors := consecutive_errors self + 1\<rparr>)
        ((idx + 1) mod int n))" if "0 < k"
  proof -
    from that assms(2) obtain e where e: "prepare self idx = Inl e" "is_Exception e"
      by (auto simp: attempt_index_def)
    have ce: "consecutive_errors self + 1 < retry"
      using that assms(4) by linarith
    have nx: "next_index self idx = Inr ((idx + 1) mod int n)"
      using that assms(1) by (simp add: next_index_def)
    show ?thesis
      using getitem_retry [OF e ce nx] by simp
  qed
  show ?thesis
    using main one by simp
qed

theorem getitem_substitution_witness:
  "prepare example_dataset 1 = Inl (OtherException ''corrupt sample'') \<and>
   prepare example_dataset 2 = Inl (OtherException ''corrupt sample'') \<and>
   result (getitem 50 example_dataset 1) =
     Inr [(''text_token_ids'', 5), (''text_segment_ids'', 5), (''label'', 0)] \<and>
   result (getitem 50 example_dataset 1) =
     result (getitem 50 (example_dataset\<lparr>consecutive_errors := 1\<rparr>) 2)"
  using getitem_substitution [of 2 example_dataset 3 1
      "[(''text_token_ids'', 5), (''text_segment_ids'', 5), (''label'', 0)]" 50]
  by (auto simp add: example_len example_prepare_0 example_prepare_1 example_prepare_2
      attempt_index_def less_2_cases_iff example_counter)

subsection \<open>Feature dictionaries\<close>



subsection \<open>Delegation of the feature extraction\<close>

text \<open>
  \<^bold>\<open>C4\<close>. When the preparation of the sample at \<open>idx\<close> succeeds, that is when every
  processor output for \<open>idx\<close> is a dictionary, the dictionary returned by \<open>getitem\<close> is
  exactly the left-to-right merged union of the outputs of the per-model processors,
  over every processor group, every modality of the group whose stored features are
  non-empty and every per-model processor of the modality. The class adds, removes and
  transforms nothing: whatever dictionary a call returns is the merged union of the
  processor outputs at the index that was prepared.
\<close>

theorem getitem_delegates:
  "(\<forall>ret. prepare self idx = Inr ret \<longrightarrow>
      result (getitem retry self idx) = Inr (merged_union self idx) \<and>
      (\<forall>out\<in>set (processor_outputs self idx). \<exists>d. out = Inr d)) \<and>
   ((\<forall>out\<in>set (processor_outputs self idx). \<exists>d. out = Inr d) \<longrightarrow>
      result (getitem retry self idx) = Inr (merged_union self idx)) \<and>
   (\<forall>ret. result (getitem retry self idx) = Inr ret \<longrightarrow>
      (\<exists>j. prepare self j = Inr ret \<and> ret = merged_union self j))"
proof (intro conjI allI impI)
  fix ret
  assume p: "prepare self idx = Inr ret"
  show "result (getitem retry self idx) = Inr (merged_union self idx)"
    using getitem_success [OF p, of retry] prepare_merged_union [OF p] by simp
  show "\<forall>out\<in>set (processor_outputs self idx). \<exists>d. out = Inr d"
    using merge_outputs_Inr [of "[]" "processor_outputs self idx" ret] p
    by (simp add: prepare_merge_outputs)
next
  assume "\<forall>out\<in>set (processor_outputs self idx). \<exists>d. out = Inr d"
  then have "prepare self idx = Inr (merged_union self idx)"
    by (simp add: prepare_merge_outputs merged_union_def merge_outputs_all_returned)
  then show "result (getitem retry self idx) = Inr (merged_union self idx)"
    using getitem_success [of self idx _ retry] by simp
next
  fix ret
  assume "result (getitem retry self idx) = Inr ret"
  then obtain j where "prepare self j = Inr ret"
    using getitem_result_prepared by blast
  then show "\<exists>j. prepare self j = Inr ret \<and> ret = merged_union self j"
    using prepare_merged_union by blast
qed

theorem getitem_delegates_witness:
  "prepare example_dataset 0 =
     Inr [(''text_token_ids'', 5), (''text_segment_ids'', 5), (''label'', 0)] \<and>
   result (getitem 50 example_dataset 0) = Inr (merged_union example_dataset 0) \<and>
   merged_union example_dataset 0 =
     [(''text_token_ids'', 5), (''text_segment_ids'', 5), (''label'', 0)]"
proof -
  note T = getitem_delegates [of example_dataset 0 50]
  from T example_prepare_0
  have r: "result (getitem 50 example_dataset 0) = Inr (merged_union example_dataset 0)"
    and "\<forall>out\<in>set (processor_outputs example_dataset 0). \<exists>d. out = Inr d"
    by blast+
  from T r obtain j where "prepare example_dataset j = Inr (merged_union example_dataset 0)"
    by blast
  have "merged_union example_dataset 0 =
     [(''text_token_ids'', 5), (''text_segment_ids'', 5), (''label'', 0)]"
    using getitem_success [OF example_prepare_0, of 50] r by simp
  with r example_prepare_0 show ?thesis by simp
qed

subsection \<open>The indexable-dataset interface\<close>

text \<open>
  \<^bold>\<open>C5\<close>. After a successful construction \<open>len\<close> returns the first recorded length,
  which is the sample count that all non-empty feature collections of the modalities
  share, and every index from \<open>0\<close> up to that length is a valid argument of
  \<open>getitem\<close>: the next index is again such an index, and so is every index that the
  call hands to a processor.
\<close>

theorem dataset_interface:
  assumes "init data preprocessor procs training = Inr self"
  shows "\<exists>n. len self = Inr n \<and> hd (lengths self) = n \<and>
    lengths self = sample_counts data (zip preprocessor procs) \<and>
    (\<forall>l\<in>set (lengths self). l = n) \<and>
    (\<forall>i<min (length preprocessor) (length procs). \<forall>m\<in>fst ` set (procs ! i). \<forall>f.
       attrs self (attr_name m i) = Some f \<longrightarrow> f \<noteq> [] \<longrightarrow> length (snd (hd f)) = n) \<and>
    (\<forall>idx. 0 \<le> idx \<and> idx < int n \<longrightarrow>
       (\<exists>j. next_index self idx = Inr j \<and> 0 \<le> j \<and> j < int n) \<and>
       (\<forall>c\<in>set (calls (getitem retry self idx)). 0 \<le> call_idx c \<and> call_idx c < int n))"
proof -
  note I = init_Inr [OF assms]
  from I obtain n where n: "set (lengths self) = {n}"
    by blast
  from len_singleton [OF n] have len: "len self = Inr n" and hd: "hd (lengths self) = n"
    by simp_all
  have counts: "lengths self = sample_counts data (zip preprocessor procs)"
    using I by (elim conjE)
  have same: "\<forall>l\<in>set (lengths self). l = n"
    using n by simp
  have stored: "\<forall>i<min (length preprocessor) (length procs). \<forall>m\<in>fst ` set (procs ! i). \<forall>f.
       attrs self (attr_name m i) = Some f \<longrightarrow> f \<noteq> [] \<longrightarrow> length (snd (hd f)) = n"
  proof (intro allI impI ballI)
    fix i m f
    assume lt: "i < min (length preprocessor) (length procs)"
      and m: "m \<in> fst ` set (procs ! i)"
      and at: "attrs self (attr_name m i) = Some f" and ne: "f \<noteq> []"
    from lt have i: "i < length preprocessor" "i < length procs"
      by simp_all
    from init_stored [OF assms i m] at
    have f: "features_of (preprocessor ! i) data m = Some f"
      by simp
    have "(preprocessor ! i, procs ! i) \<in> set (zip preprocessor procs)"
      unfolding in_set_zip using i by (intro exI [of _ i]) simp
    from sample_counts_member [OF this m f ne]
    have "length (snd (hd f)) \<in> set (lengths self)"
      by (simp only: counts)
    with n show "length (snd (hd f)) = n" by simp
  qed
  have valid: "\<forall>idx. 0 \<le> idx \<and> idx < int n \<longrightarrow>
       (\<exists>j. next_index self idx = Inr j \<and> 0 \<le> j \<and> j < int n) \<and>
       (\<forall>c\<in>set (calls (getitem retry self idx)). 0 \<le> call_idx c \<and> call_idx c < int n)"
  proof (intro allI impI conjI ballI)
    fix idx
    assume idx: "0 \<le> idx \<and> idx < int n"
    then have "0 < n" by simp
    then show "\<exists>j. next_index self idx = Inr j \<and> 0 \<le> j \<and> j < int n"
      by (simp add: next_index_def len)
    fix c
    assume c: "c \<in> set (calls (getitem retry self idx))"
    from idx have "0 \<le> idx" "idx < int n" by simp_all
    from getitem_calls_in_range [OF len this c]
    show "0 \<le> call_idx c" and "call_idx c < int n"
      by simp_all
  qed
  from len hd counts same stored valid show ?thesis
    by (intro exI [of _ n] conjI)
qed

theorem dataset_interface_witness:
  "init example_data [example_preprocessor] example_processors True = Inr example_dataset \<and>
   len example_dataset = Inr 3 \<and>
   next_index example_dataset 2 = Inr 0"
proof -
  from dataset_interface [OF example_init, of 50] obtain n where
    n: "len example_dataset = Inr n"
    and valid: "\<forall>idx. 0 \<le> idx \<and> idx < int n \<longrightarrow>
       (\<exists>j. next_index example_dataset idx = Inr j \<and> 0 \<le> j \<and> j < int n) \<and>
       (\<forall>c\<in>set (calls (getitem 50 example_dataset idx)). 0 \<le> call_idx c \<and> call_idx c < int n)"
    by (elim exE conjE)
  from n have n3: "n = 3"
    by (simp add: example_len)
  from valid have v2: "0 \<le> (2::int) \<and> 2 < int n \<longrightarrow>
       (\<exists>j. next_index example_dataset 2 = Inr j \<and> 0 \<le> j \<and> j < int n) \<and>
       (\<forall>c\<in>set (calls (getitem 50 example_dataset 2)). 0 \<le> call_idx c \<and> call_idx c < int n)"
    by (rule spec)
  have "0 \<le> (2::int) \<and> 2 < int n"
    using n3 by simp
  from conjunct1 [OF mp [OF v2 this]] obtain j where
    j: "next_index example_dataset 2 = Inr j" "0 \<le> j" "j < int n"
    by (elim exE conjE)
  have nx: "next_index example_dataset 2 = Inr 0"
    by (simp add: next_index_def example_len)
  have l3: "len example_dataset = Inr 3"
    using n unfolding n3 .
  from example_init l3 nx show ?thesis
    by (intro conjI)
qed

subsection \<open>Delegation to the preprocessors\<close>

text \<open>
  \<^bold>\<open>C6\<close>. For every position \<open>i\<close> of the zipped lists of preprocessors and processor
  groups and every modality of the \<open>i\<close>-th group, the constructor calls the method
  \<^verbatim>\<open>transform_<modality>\<close> of the \<open>i\<close>-th preprocessor on the data frame and stores the
  result, unchanged, as the attribute \<^verbatim>\<open><modality>_<i>\<close>; it stores nothing else.
\<close>

theorem init_delegates_to_preprocessor:
  assumes "init data preprocessor procs training = Inr self"
  shows "(\<forall>i<min (length preprocessor) (length procs). \<forall>m\<in>fst ` set (procs ! i).
       \<exists>transform f. (preprocessor ! i) (transform_name m) = Some transform \<and>
         transform data = Inr f \<and> attrs self (attr_name m i) = Some f) \<and>
    (\<forall>name f. attrs self name = Some f \<longrightarrow>
       (\<exists>i<min (length preprocessor) (length procs). \<exists>m\<in>fst ` set (procs ! i).
          name = attr_name m i))"
proof (intro conjI allI impI ballI)
  fix i m
  assume i: "i < min (length preprocessor) (length procs)" and m: "m \<in> fst ` set (procs ! i)"
  from i have "i < length preprocessor" "i < length procs"
    by simp_all
  from init_stored [OF assms this m] obtain f where
    "features_of (preprocessor ! i) data m = Some f" "attrs self (attr_name m i) = Some f"
    by auto
  then show "\<exists>transform f. (preprocessor ! i) (transform_name m) = Some transform \<and>
         transform data = Inr f \<and> attrs self (attr_name m i) = Some f"
    by (auto simp: features_of_def split: option.splits sum.splits)
next
  fix name f
  assume "attrs self name = Some f"
  with assms show "\<exists>i<min (length preprocessor) (length procs). \<exists>m\<in>fst ` set (procs ! i).
          name = attr_name m i"
    by (rule init_stored_only)
qed

theorem init_delegates_to_preprocessor_witness:
  "init example_data [example_preprocessor] example_processors True = Inr example_dataset \<and>
   (\<exists>transform f. example_preprocessor (transform_name ''label'') = Some transform \<and>
      transform example_data = Inr f \<and>
      attrs example_dataset (attr_name ''label'' 0) = Some f) \<and>
   attrs example_dataset ''text_0'' = Some [(''text'', [5, - 1, - 1])]"
proof -
  have "\<forall>m\<in>fst ` set (example_processors ! 0).
       \<exists>transform f. ([example_preprocessor] ! 0) (transform_name m) = Some transform \<and>
         transform example_data = Inr f \<and> attrs example_dataset (attr_name m 0) = Some f"
    using init_delegates_to_preprocessor [OF example_init]
    by (simp add: example_processors_def)
  moreover have "''label'' \<in> fst ` set (example_processors ! 0)"
    by (simp add: example_processors_def)
  ultimately have "\<exists>transform f. ([example_preprocessor] ! 0) (transform_name ''label'') = Some transform \<and>
         transform example_data = Inr f \<and> attrs example_dataset (attr_name ''label'' 0) = Some f"
    by blast
  moreover have "attrs example_dataset ''text_0'' = Some [(''text'', [5, - 1, - 1])]"
    by (simp add: example_dataset_def)
  ultimately show ?thesis
    using example_init by simp
qed

subsection \<open>One processor pipeline per modality\<close>

text \<open>
  \<^bold>\<open>C7\<close>. Every invocation of a per-model processor in \<open>getitem\<close> is the invocation of
  a processor registered under a modality key of some group, on the features stored
  for that modality and that group (the attribute \<^verbatim>\<open><modality>_<i>\<close>, which belongs to
  no other modality or group), together with the index of the sample being prepared
  and the training flag.
\<close>

theorem processors_receive_own_features:
  assumes "c \<in> set (calls (getitem retry self idx))"
  shows "call_group c < length (processors self) \<and>
     (\<exists>ps. (call_modality c, ps) \<in> set (processors self ! call_group c) \<and>
        call_processor c \<in> set ps) \<and>
     attrs self (attr_name (call_modality c) (call_group c)) = Some (call_features c) \<and>
     (\<forall>m i. attr_name m i = attr_name (call_modality c) (call_group c) \<longrightarrow>
        m = call_modality c \<and> i = call_group c) \<and>
     call_is_training c = is_training self \<and>
     (call_idx c = idx \<or> (\<exists>n. len self = Inr n \<and> 0 \<le> call_idx c \<and> call_idx c < int n))"
  using getitem_calls [of retry self idx] assms by (simp add: attr_name_inj)

theorem processors_receive_own_features_witness:
  "\<lparr>call_group = 0, call_modality = ''label'', call_processor = column_processor ''label'',
     call_features = [(''label'', [0, 1, 0])], call_idx = 0, call_is_training = True\<rparr>
     \<in> set (calls (getitem 50 example_dataset 0)) \<and>
   attrs example_dataset (attr_name ''label'' 0) = Some [(''label'', [0, 1, 0])] \<and>
   is_training example_dataset = True"
  using processors_receive_own_features [of
      "\<lparr>call_group = 0, call_modality = ''label'', call_processor = column_processor ''label'',
        call_features = [(''label'', [0, 1, 0])], call_idx = 0, call_is_training = True\<rparr>"
      50 example_dataset 0]
  by (simp add: example_calls_0 example_try_block_0)

subsection \<open>The length assertion of the constructor\<close>

text \<open>
  \<^bold>\<open>C8\<close>. The constructor completes only if there is exactly one distinct recorded
  length, that is, at least one modality yields a non-empty feature collection and
  all non-empty collections have the same sample count; \<open>len\<close> then returns that count
  and does not fail. When every transform exists and returns, the constructor
  completes if that condition holds and fails with an assertion error otherwise.
\<close>

theorem init_length_assertion:
  "(\<forall>self. init data preprocessor procs training = Inr self \<longrightarrow>
      (\<exists>n. set (sample_counts data (zip preprocessor procs)) = {n} \<and>
         lengths self = sample_counts data (zip preprocessor procs) \<and> len self = Inr n)) \<and>
   ((\<forall>(pre, g)\<in>set (zip preprocessor procs). \<forall>m\<in>fst ` set g. features_of pre data m \<noteq> None) \<longrightarrow>
      (if \<exists>n. set (sample_counts data (zip preprocessor procs)) = {n}
       then \<exists>self. init data preprocessor procs training = Inr self
       else init data preprocessor procs training = Inl AssertionError))"
proof (intro conjI allI impI)
  fix self
  assume ok: "init data preprocessor procs training = Inr self"
  note I = init_Inr [OF ok]
  from I have counts: "lengths self = sample_counts data (zip preprocessor procs)"
    by (elim conjE)
  from I obtain n where n: "set (lengths self) = {n}"
    by (elim conjE exE)
  from len_singleton(1) [OF n] n counts
  show "\<exists>n. set (sample_counts data (zip preprocessor procs)) = {n} \<and>
         lengths self = sample_counts data (zip preprocessor procs) \<and> len self = Inr n"
    by (intro exI [of _ n]) simp
next
  let ?zs = "zip preprocessor procs"
  assume "\<forall>(pre, g)\<in>set ?zs. \<forall>m\<in>fst ` set g. features_of pre data m \<noteq> None"
  from init_groups_total [OF this, of 0 "(Map.empty, [])"] obtain at ls where
    groups: "init_groups data 0 ?zs (Map.empty, []) = Inr (at, ls)"
    by (metis surj_pair)
  from init_groups_Inr [OF groups] have ls: "ls = sample_counts data ?zs"
    by simp
  show "if \<exists>n. set (sample_counts data ?zs) = {n}
       then \<exists>self. init data preprocessor procs training = Inr self
       else init data preprocessor procs training = Inl AssertionError"
  proof (cases "\<exists>n. set (sample_counts data ?zs) = {n}")
    case True
    then have "length (remdups ls) = 1"
      by (simp only: remdups_singleton ls)
    with groups True show ?thesis
      by (simp add: init_def)
  next
    case False
    then have "length (remdups ls) \<noteq> 1"
      by (simp only: remdups_singleton ls not_False_eq_True)
    with groups False show ?thesis
      by (simp add: init_def)
  qed
qed

theorem init_length_assertion_witness:
  "init example_data [example_preprocessor] example_processors True = Inr example_dataset \<and>
   set (sample_counts example_data (zip [example_preprocessor] example_processors)) = {3} \<and>
   len example_dataset = Inr 3 \<and>
   sample_counts ragged_data (zip [example_preprocessor] example_processors) = [3, 2] \<and>
   init ragged_data [example_preprocessor] example_processors True = Inl AssertionError"
proof -
  note good = init_length_assertion [of example_data "[example_preprocessor]" example_processors True]
  note bad = init_length_assertion [of ragged_data "[example_preprocessor]" example_processors True]
  from good example_init obtain n where
    n: "set (sample_counts example_data (zip [example_preprocessor] example_processors)) = {n}"
      "len example_dataset = Inr n"
    by blast
  from n(2) have n3: "n = 3"
    by (simp add: example_len)
  have "\<not> (\<exists>n. set (sample_counts ragged_data (zip [example_preprocessor] example_processors)) = {n})"
    by (simp add: example_sample_counts doubleton_eq_iff)
  with bad example_transforms [of ragged_data]
  have "init ragged_data [example_preprocessor] example_processors True = Inl AssertionError"
    by (simp only: if_False simp_thms)
  with n example_init show ?thesis
    unfolding n3 by (simp add: example_sample_counts)
qed

subsection \<open>Consecutive, not cumulative, errors\<close>

text \<open>
  \<^bold>\<open>C9\<close>. The counter of consecutive errors is \<open>0\<close> after construction, grows by one
  with each failed preparation of a sample (one that raises an \<^verbatim>\<open>Exception\<close>), and is
  \<open>0\<close> again after every call that returns. A call that returns therefore restores
  the whole budget: the next call tolerates any number of failures below the bound
  again, however many failures came before the success.
\<close>

theorem consecutive_error_counting:
  "(\<forall>self0. init data preprocessor procs training = Inr self0 \<longrightarrow>
      consecutive_errors self0 = 0) \<and>
   (\<forall>e. prepare self idx = Inl e \<longrightarrow> is_Exception e \<longrightarrow>
      (\<not> consecutive_errors self + 1 < retry \<longrightarrow>
         state (getitem retry self idx) =
           self\<lparr>consecutive_errors := consecutive_errors self + 1\<rparr>) \<and>
      (\<forall>idx'. consecutive_errors self + 1 < retry \<longrightarrow> next_index self idx = Inr idx' \<longrightarrow>
         state (getitem retry self idx) =
           state (getitem retry (self\<lparr>consecutive_errors := consecutive_errors self + 1\<rparr>) idx'))) \<and>
   (\<forall>ret. result (getitem retry self idx) = Inr ret \<longrightarrow>
      consecutive_errors (state (getitem retry self idx)) = 0 \<and>
      (\<forall>n k idx' ret'. len self = Inr n \<longrightarrow> 0 < n \<longrightarrow>
         (\<forall>j<k. \<exists>e. prepare self (attempt_index n idx' j) = Inl e \<and> is_Exception e) \<longrightarrow>
         prepare self (attempt_index n idx' k) = Inr ret' \<longrightarrow> int k < retry \<longrightarrow>
         result (getitem retry (state (getitem retry self idx)) idx') = Inr ret' \<and>
         consecutive_errors (state (getitem retry (state (getitem retry self idx)) idx')) = 0))"
proof (intro conjI allI impI)
  fix self0
  assume "init data preprocessor procs training = Inr self0"
  from init_Inr [OF this] show "consecutive_errors self0 = 0"
    by simp
next
  fix e
  assume "prepare self idx = Inl e" "is_Exception e" "\<not> consecutive_errors self + 1 < retry"
  from getitem_reraise [OF this]
  show "state (getitem retry self idx) =
      self\<lparr>consecutive_errors := consecutive_errors self + 1\<rparr>"
    by simp
next
  fix e idx'
  assume "prepare self idx = Inl e" "is_Exception e" "consecutive_errors self + 1 < retry"
    "next_index self idx = Inr idx'"
  from getitem_retry [OF this]
  show "state (getitem retry self idx) =
      state (getitem retry (self\<lparr>consecutive_errors := consecutive_errors self + 1\<rparr>) idx')"
    by simp
next
  fix ret
  assume "result (getitem retry self idx) = Inr ret"
  then show "consecutive_errors (state (getitem retry self idx)) = 0"
    using getitem_success_state [of retry self idx] by simp
next
  fix ret n k idx' ret'
  assume ok: "result (getitem retry self idx) = Inr ret"
    and n: "len self = Inr n" "0 < n"
    and fails: "\<forall>j<k. \<exists>e. prepare self (attempt_index n idx' j) = Inl e \<and> is_Exception e"
    and good: "prepare self (attempt_index n idx' k) = Inr ret'"
    and k: "int k < retry"
  let ?s = "self\<lparr>consecutive_errors := 0\<rparr>"
  have st: "state (getitem retry self idx) = ?s"
    using ok getitem_success_state [of retry self idx] by simp
  have 1: "0 < k \<longrightarrow> len ?s = Inr n \<and> 0 < n"
    using n by simp
  have 2: "\<forall>j<k. \<exists>e. prepare ?s (attempt_index n idx' j) = Inl e \<and> is_Exception e"
    using fails by simp
  have 3: "prepare ?s (attempt_index n idx' k) = Inr ret'"
    using good by simp
  have 4: "consecutive_errors ?s + int k < retry"
    using k by simp
  from getitem_after_failures [OF 1 2 3 4]
  show "result (getitem retry (state (getitem retry self idx)) idx') = Inr ret'"
    and "consecutive_errors (state (getitem retry (state (getitem retry self idx)) idx')) = 0"
    by (simp_all add: st)
qed

theorem consecutive_error_counting_witness:
  "init example_data [example_preprocessor] example_processors True = Inr example_dataset \<and>
   consecutive_errors example_dataset = 0 \<and>
   prepare example_dataset 2 = Inl (OtherException ''corrupt sample'') \<and>
   result (getitem 2 example_dataset 2) =
     Inr [(''text_token_ids'', 5), (''text_segment_ids'', 5), (''label'', 0)] \<and>
   consecutive_errors (state (getitem 2 example_dataset 2)) = 0 \<and>
   result (getitem 2 (state (getitem 2 example_dataset 2)) 2) =
     Inr [(''text_token_ids'', 5), (''text_segment_ids'', 5), (''label'', 0)] \<and>
   state (getitem 2 example_dataset 1) = example_dataset\<lparr>consecutive_errors := 2\<rparr>"
proof -
  note T = consecutive_error_counting [where data = example_data
      and preprocessor = "[example_preprocessor]" and procs = example_processors
      and training = True and retry = 2]
  have a: "consecutive_errors example_dataset = 0"
    using T [of example_dataset 2] example_init by blast
  have ok: "result (getitem 2 example_dataset 2) =
     Inr [(''text_token_ids'', 5), (''text_segment_ids'', 5), (''label'', 0)]"
    by (rule example_getitem_2)
  have fails: "\<forall>j<1. \<exists>e. prepare example_dataset (attempt_index 3 2 j) = Inl e \<and> is_Exception e"
    by (simp add: example_attempts_from_2 example_prepare_2)
  have good: "prepare example_dataset (attempt_index 3 2 1) =
     Inr [(''text_token_ids'', 5), (''text_segment_ids'', 5), (''label'', 0)]"
    by (simp add: example_attempts_from_2 example_prepare_0)
  have restored: "consecutive_errors (state (getitem 2 example_dataset 2)) = 0 \<and>
    (\<forall>n k idx' ret'. len example_dataset = Inr n \<longrightarrow> 0 < n \<longrightarrow>
       (\<forall>j<k. \<exists>e. prepare example_dataset (attempt_index n idx' j) = Inl e \<and> is_Exception e) \<longrightarrow>
       prepare example_dataset (attempt_index n idx' k) = Inr ret' \<longrightarrow> int k < 2 \<longrightarrow>
       result (getitem 2 (state (getitem 2 example_dataset 2)) idx') = Inr ret' \<and>
       consecutive_errors (state (getitem 2 (state (getitem 2 example_dataset 2)) idx')) = 0)"
    using T [of example_dataset 2] ok by blast
  then have "len example_dataset = Inr 3 \<longrightarrow> 0 < (3::nat) \<longrightarrow>
       (\<forall>j<1. \<exists>e. prepare example_dataset (attempt_index 3 2 j) = Inl e \<and> is_Exception e) \<longrightarrow>
       prepare example_dataset (attempt_index 3 2 1) =
         Inr [(''text_token_ids'', 5), (''text_segment_ids'', 5), (''label'', 0)] \<longrightarrow>
       int 1 < 2 \<longrightarrow>
       result (getitem 2 (state (getitem 2 example_dataset 2)) 2) =
         Inr [(''text_token_ids'', 5), (''text_segment_ids'', 5), (''label'', 0)]"
    by blast
  with fails good have again: "result (getitem 2 (state (getitem 2 example_dataset 2)) 2) =
         Inr [(''text_token_ids'', 5), (''text_segment_ids'', 5), (''label'', 0)]"
    by (simp add: example_len)
  have b: "consecutive_errors (state (getitem 2 example_dataset 2)) = 0"
    using restored by blast
  have nx: "next_index example_dataset 1 = Inr 2"
    by (simp add: next_index_def example_len)
  have "consecutive_errors example_dataset + 1 < 2 \<longrightarrow> next_index example_dataset 1 = Inr 2 \<longrightarrow>
      state (getitem 2 example_dataset 1) =
      state (getitem 2 (example_dataset\<lparr>consecutive_errors := consecutive_errors example_dataset + 1\<rparr>) 2)"
    using T [of example_dataset 1] example_prepare_1 by simp
  then have step: "state (getitem 2 example_dataset 1) =
      state (getitem 2 (example_dataset\<lparr>consecutive_errors := 1\<rparr>) 2)"
    using nx by (simp add: example_counter)
  have last: "state (getitem 2 (example_dataset\<lparr>consecutive_errors := 1\<rparr>) 2) =
      example_dataset\<lparr>consecutive_errors := 2\<rparr>"
    using T [of "example_dataset\<lparr>consecutive_errors := 1\<rparr>" 2]
    by (simp add: example_prepare_2)
  show ?thesis
    using a b ok again step last example_init example_prepare_2 by simp
qed

subsection \<open>Frame condition\<close>

text \<open>
  \<^bold>\<open>C10\<close>. Whether a call of \<open>getitem\<close> returns or raises, the only attribute of the
  dataset that it may change is the counter of consecutive errors: the processors, the
  training flag, the recorded lengths and the stored features of every modality are
  afterwards what they were before.
\<close>

theorem getitem_frame:
  "processors (state (getitem retry self idx)) = processors self \<and>
   is_training (state (getitem retry self idx)) = is_training self \<and>
   lengths (state (getitem retry self idx)) = lengths self \<and>
   attrs (state (getitem retry self idx)) = attrs self \<and>
   state (getitem retry self idx) =
     self\<lparr>consecutive_errors := consecutive_errors (state (getitem retry self idx))\<rparr>"
proof (induction retry self idx rule: getitem.induct)
  case (1 retry self idx)
  show ?case
    apply (subst (1 2 3 4 5 6) getitem.simps)
    using 1 by (auto split: prod.splits sum.splits simp: Let_def)
qed

end
